theory Spec2Isabelle
  imports Main
begin

section \<open>Hex grid squares and their neighbours\<close>

text \<open>
  A \<^verbatim>\<open>HexGridSquare\<close> carries integer coordinates \<^verbatim>\<open>x\<close> (column) and \<^verbatim>\<open>y\<close> (row); its
  \<^verbatim>\<open>blocked\<close> field is set to false by the constructor and never read.  The maps and
  sets of the game are keyed by \<^verbatim>\<open>hash()\<close>, the string \<^verbatim>\<open>x,y\<close>, which
  \<^verbatim>\<open>key.split(',').map(Number)\<close> turns back into the two coordinates: on integer
  coordinates the key and the pair determine each other, so a key is modelled by the pair
  itself.
\<close>

type_synonym HexGridSquare = "int \<times> int"

text \<open>The remainder operator \<^verbatim>\<open>%\<close> of JavaScript on integers: the sign follows the dividend.\<close>

definition js_rem :: "int \<Rightarrow> int \<Rightarrow> int" where
  "js_rem a b = sgn a * (\<bar>a\<bar> mod \<bar>b\<bar>)"

definition directions :: "bool \<Rightarrow> (int \<times> int) list" where
  "directions oddRow =
     (if oddRow
      then [(-1, 0), (1, 0), (0, -1), (1, -1), (0, 1), (1, 1)]
      else [(-1, 0), (1, 0), (-1, -1), (0, -1), (-1, 1), (0, 1)])"

definition getNeighbors :: "HexGridSquare \<Rightarrow> HexGridSquare list" where
  "getNeighbors s =
     (let oddRow = (js_rem (snd s) 2 = 1)
      in map (\<lambda>(dx, dy). (fst s + dx, snd s + dy)) (directions oddRow))"

text \<open>
  The edge test that \<^verbatim>\<open>findShortestEscapePath\<close> applies to the dequeued square and
  \<^verbatim>\<open>getNextStep\<close> to the next square of the route.
\<close>

definition isBoundary :: "int \<Rightarrow> int \<Rightarrow> HexGridSquare \<Rightarrow> bool" where
  "isBoundary gridWidth gridHeight c \<longleftrightarrow>
     fst c = 0 \<or> fst c = gridWidth - 1 \<or> snd c = 0 \<or> snd c = gridHeight - 1"

section \<open>The lobster and its breadth-first search\<close>

record LobsterToken =
  position :: HexGridSquare
  rotation :: int

text \<open>
  The \<^verbatim>\<open>parent\<close> map of the search: a visited key is mapped to the key it was reached
  from, the start key to \<^verbatim>\<open>null\<close> (\<open>Some None\<close>); an absent key is \<open>None\<close>.
\<close>

type_synonym parent_map = "HexGridSquare \<Rightarrow> HexGridSquare option option"

text \<open>
  The inner loop \<^verbatim>\<open>while (k) { path.unshift(..k..); k = parent.get(k); }\<close>.
  \<^verbatim>\<open>parent.get\<close> yields \<^verbatim>\<open>undefined\<close> for an absent key and \<^verbatim>\<open>null\<close> for the start key;
  both end the loop.  On a map with a cycle the loop does not end: the result \<open>None\<close>.
\<close>

partial_function (option) walkParents ::
  "parent_map \<Rightarrow> HexGridSquare option \<Rightarrow> HexGridSquare list \<Rightarrow> HexGridSquare list option"
where
  "walkParents parent k path =
     (case k of
        None \<Rightarrow> Some path
      | Some c \<Rightarrow>
          walkParents parent (case parent c of None \<Rightarrow> None | Some v \<Rightarrow> v) (c # path))"

text \<open>One round of the \<^verbatim>\<open>for (const neighbor of current.getNeighbors())\<close> loop.\<close>

definition visit ::
  "HexGridSquare set \<Rightarrow> HexGridSquare list \<Rightarrow> HexGridSquare \<Rightarrow>
   HexGridSquare list \<times> parent_map \<Rightarrow> HexGridSquare \<Rightarrow> HexGridSquare list \<times> parent_map"
where
  "visit blockedSet boardSquares key qp nk =
     (case qp of (queue, parent) \<Rightarrow>
        if parent nk = None \<and> nk \<in> set boardSquares \<and> nk \<notin> blockedSet
        then (queue @ [nk], parent(nk \<mapsto> Some key))
        else (queue, parent))"

definition expand ::
  "HexGridSquare set \<Rightarrow> HexGridSquare list \<Rightarrow> HexGridSquare \<Rightarrow>
   HexGridSquare list \<times> parent_map \<Rightarrow> HexGridSquare list \<times> parent_map"
where
  "expand blockedSet boardSquares key qp =
     foldl (visit blockedSet boardSquares key) qp (getNeighbors key)"

text \<open>
  The outer loop \<^verbatim>\<open>while (queue.length)\<close>.  The result \<open>Some None\<close> is the \<^verbatim>\<open>null\<close>
  returned when the queue runs empty, \<open>Some (Some path)\<close> a returned route, and \<open>None\<close>
  stands for a run that does not return.  \<^verbatim>\<open>boardSquares\<close> is the list of the keys of
  the board map in insertion order.
\<close>

partial_function (option) bfsLoop ::
  "HexGridSquare set \<Rightarrow> HexGridSquare list \<Rightarrow> int \<Rightarrow> int \<Rightarrow>
   HexGridSquare list \<Rightarrow> parent_map \<Rightarrow> HexGridSquare list option option"
where
  "bfsLoop blockedSet boardSquares gridWidth gridHeight queue parent =
     (case queue of
        [] \<Rightarrow> Some None
      | key # rest \<Rightarrow>
          if isBoundary gridWidth gridHeight key
          then map_option Some (walkParents parent (Some key) [])
          else bfsLoop blockedSet boardSquares gridWidth gridHeight
                 (fst (expand blockedSet boardSquares key (rest, parent)))
                 (snd (expand blockedSet boardSquares key (rest, parent))))"

text \<open>
  The same loop with a bound on the number of times its condition is tested: once the
  fuel is used up the result is \<open>None\<close>.
\<close>

fun bfsLoopFuel ::
  "nat \<Rightarrow> HexGridSquare set \<Rightarrow> HexGridSquare list \<Rightarrow> int \<Rightarrow> int \<Rightarrow>
   HexGridSquare list \<Rightarrow> parent_map \<Rightarrow> HexGridSquare list option option"
where
  "bfsLoopFuel 0 blockedSet boardSquares gridWidth gridHeight queue parent = None"
| "bfsLoopFuel (Suc fuel) blockedSet boardSquares gridWidth gridHeight queue parent =
     (case queue of
        [] \<Rightarrow> Some None
      | key # rest \<Rightarrow>
          if isBoundary gridWidth gridHeight key
          then map_option Some (walkParents parent (Some key) [])
          else bfsLoopFuel fuel blockedSet boardSquares gridWidth gridHeight
                 (fst (expand blockedSet boardSquares key (rest, parent)))
                 (snd (expand blockedSet boardSquares key (rest, parent))))"

definition findShortestEscapePath ::
  "LobsterToken \<Rightarrow> HexGridSquare set \<Rightarrow> HexGridSquare list \<Rightarrow> int \<Rightarrow> int \<Rightarrow>
   HexGridSquare list option option"
where
  "findShortestEscapePath lobster blockedSet boardSquares gridWidth gridHeight =
     (let start = position lobster
      in bfsLoop blockedSet boardSquares gridWidth gridHeight
           [start] (Map.empty(start \<mapsto> None)))"

text \<open>
  \<^verbatim>\<open>getNextStep\<close> returns the record \<^verbatim>\<open>{ nextPos, escapedIfMove }\<close>, here a pair;
  \<^verbatim>\<open>nextPos: null\<close> is \<open>None\<close>.
\<close>

definition getNextStep ::
  "LobsterToken \<Rightarrow> HexGridSquare set \<Rightarrow> HexGridSquare list \<Rightarrow> int \<Rightarrow> int \<Rightarrow>
   (HexGridSquare option \<times> bool) option"
where
  "getNextStep lobster blockedSet boardSquares gridWidth gridHeight =
     (case findShortestEscapePath lobster blockedSet boardSquares gridWidth gridHeight of
        None \<Rightarrow> None
      | Some None \<Rightarrow> Some (None, False)
      | Some (Some path) \<Rightarrow>
          if length path \<le> 1 then Some (None, False)
          else let nextPos = path ! 1
               in Some (Some nextPos, isBoundary gridWidth gridHeight nextPos))"

text \<open>
  \<^verbatim>\<open>getRotationForDirection\<close>: the facing of the lobster, used by the renderer only.
\<close>

definition getRotationForDirection :: "LobsterToken \<Rightarrow> HexGridSquare \<Rightarrow> int" where
  "getRotationForDirection lobster newPos =
     (let dx = fst newPos - fst (position lobster);
          dy = snd newPos - snd (position lobster);
          oddRow = (js_rem (snd (position lobster)) 2 = 1)
      in if dx = 1 \<and> dy = 0 then 90
         else if dx = - 1 \<and> dy = 0 then 270
         else if dy = - 1 \<and> oddRow \<and> dx = 1 then 30
         else if dy = - 1 \<and> oddRow \<and> dx = 0 then 330
         else if dy = - 1 \<and> \<not> oddRow \<and> dx = 0 then 30
         else if dy = - 1 \<and> \<not> oddRow \<and> dx = - 1 then 330
         else if dy = 1 \<and> oddRow \<and> dx = 1 then 150
         else if dy = 1 \<and> oddRow \<and> dx = 0 then 210
         else if dy = 1 \<and> \<not> oddRow \<and> dx = 0 then 150
         else if dy = 1 \<and> \<not> oddRow \<and> dx = - 1 then 210
         else rotation lobster)"

section \<open>The board of game 1\<close>

text \<open>
  The fields of \<^verbatim>\<open>Game1Board\<close> that the game logic reads or writes.  \<^verbatim>\<open>boardSquares\<close>
  is the list of the keys of the map in insertion order (each key is mapped to the square
  of the same coordinates).  \<^verbatim>\<open>lobster\<close> is \<^verbatim>\<open>null\<close> only inside the constructor, until
  \<^verbatim>\<open>spawnLobster\<close> has run.
\<close>

record Game1Board =
  blockedSet :: "HexGridSquare set"
  lobster :: LobsterToken
  gameOver :: bool
  gameLost :: bool
  isAnimating :: bool
  isEscaping :: bool
  gridWidth :: int
  gridHeight :: int
  boardSquares :: "HexGridSquare list"

text \<open>\<^verbatim>\<open>Map.set\<close> on the keys: a key already present keeps its place.\<close>

definition mapSet :: "HexGridSquare list \<Rightarrow> HexGridSquare \<Rightarrow> HexGridSquare list" where
  "mapSet m k = (if k \<in> set m then m else m @ [k])"

text \<open>The squares in the order of the two nested loops of \<^verbatim>\<open>initializeBoard\<close>.\<close>

definition gridSquares :: "int \<Rightarrow> int \<Rightarrow> HexGridSquare list" where
  "gridSquares w h = concat (map (\<lambda>x. map (\<lambda>y. (x, y)) [0..h - 1]) [0..w - 1])"

definition initializeBoard :: "Game1Board \<Rightarrow> Game1Board" where
  "initializeBoard b =
     b\<lparr>boardSquares := foldl mapSet (boardSquares b) (gridSquares (gridWidth b) (gridHeight b))\<rparr>"

definition spawnLobster :: "Game1Board \<Rightarrow> Game1Board" where
  "spawnLobster b =
     (let centerX = gridWidth b div 2;
          centerY = gridHeight b div 2
      in b\<lparr>lobster := \<lparr>position = (centerX, centerY), rotation = 0\<rparr>\<rparr>)"

text \<open>
  \<^verbatim>\<open>Math.floor(squareArray.length * 0.15)\<close>.  The product is a floating-point number;
  for the board sizes of the game (110 squares, and 42 on the tutorial board) its floor
  is the integer quotient below (16 and 6).
\<close>

definition rockCount :: "nat \<Rightarrow> nat" where
  "rockCount n = (n * 15) div 100"

text \<open>
  \<^verbatim>\<open>Math.random\<close> is an input of the model: each number of the list \<open>draws\<close> is one value
  of \<^verbatim>\<open>Math.floor(Math.random() * squareArray.length)\<close>, an index below the length of the
  array.  The \<^verbatim>\<open>do ... while\<close> loop draws again while the square is the lobster's; it ends
  only when some draw is another square, so a list of draws that runs out stands for a run
  that has not ended (\<open>None\<close>).
\<close>

fun pickSquare ::
  "HexGridSquare list \<Rightarrow> HexGridSquare \<Rightarrow> nat list \<Rightarrow> (HexGridSquare \<times> nat list) option"
where
  "pickSquare squareArray lobsterPosHash [] = None"
| "pickSquare squareArray lobsterPosHash (r # draws) =
     (if r < length squareArray
      then (if squareArray ! r = lobsterPosHash
            then pickSquare squareArray lobsterPosHash draws
            else Some (squareArray ! r, draws))
      else None)"

fun placeRocks ::
  "nat \<Rightarrow> HexGridSquare list \<Rightarrow> HexGridSquare \<Rightarrow> nat list \<Rightarrow> HexGridSquare set \<Rightarrow>
   HexGridSquare set option"
where
  "placeRocks 0 squareArray lobsterPosHash draws blocked = Some blocked"
| "placeRocks (Suc n) squareArray lobsterPosHash draws blocked =
     (case pickSquare squareArray lobsterPosHash draws of
        None \<Rightarrow> None
      | Some (square, draws') \<Rightarrow>
          placeRocks n squareArray lobsterPosHash draws' (insert square blocked))"

definition placeRandomRocks :: "nat list \<Rightarrow> Game1Board \<Rightarrow> Game1Board option" where
  "placeRandomRocks draws b =
     (let squareArray = boardSquares b;
          lobsterPosHash = position (lobster b)
      in map_option (\<lambda>blocked. b\<lparr>blockedSet := blocked\<rparr>)
           (placeRocks (rockCount (length squareArray)) squareArray lobsterPosHash draws
              (blockedSet b)))"

definition reset :: "nat list \<Rightarrow> Game1Board \<Rightarrow> Game1Board option" where
  "reset draws b =
     map_option
       (\<lambda>b'. b'\<lparr>gameOver := False, gameLost := False, isAnimating := False, isEscaping := False\<rparr>)
       (placeRandomRocks draws (spawnLobster (b\<lparr>blockedSet := {}\<rparr>)))"

text \<open>
  The constructor \<^verbatim>\<open>new Game1Board(radius, controller)\<close>: an 11 by 10 grid.
  \<open>openBoard\<close> is the board it has built when \<^verbatim>\<open>placeRandomRocks\<close> is called: the squares
  are set up, the lobster is spawned and no square is blocked.  The lobster written in the
  first record stands for the \<^verbatim>\<open>null\<close> of the constructor; \<^verbatim>\<open>spawnLobster\<close> replaces it.
\<close>

definition openBoard :: Game1Board where
  "openBoard =
     spawnLobster
       (initializeBoard
          \<lparr>blockedSet = {}, lobster = \<lparr>position = (0, 0), rotation = 0\<rparr>,
           gameOver = False, gameLost = False, isAnimating = False, isEscaping = False,
           gridWidth = 11, gridHeight = 10, boardSquares = []\<rparr>)"

definition newGame1Board :: "nat list \<Rightarrow> Game1Board option" where
  "newGame1Board draws = placeRandomRocks draws openBoard"

subsection \<open>Timers\<close>

text \<open>
  The callbacks that the board hands to \<^verbatim>\<open>setTimeout\<close>, with the values they close over:
  the three stages of \<^verbatim>\<open>animateTurnWiggleJump\<close> (after 120, 120 and 280 ms), the reset at
  the end of \<^verbatim>\<open>triggerEscapeAnimation\<close> (3000 ms), and the reset at the end of the chain of
  callbacks that follows a capture (the stages of that chain before the reset only touch
  the document and the points counter of the controller, and are merged into one timer).
  A state of the game is the board with the list of the pending timers.
\<close>

datatype timer =
    TurnTimer HexGridSquare bool
  | WiggleTimer HexGridSquare bool
  | JumpTimer bool
  | EscapeTimer
  | CaughtTimer

definition animateTurnWiggleJump ::
  "HexGridSquare \<Rightarrow> bool \<Rightarrow> Game1Board \<times> timer list \<Rightarrow> Game1Board \<times> timer list"
where
  "animateTurnWiggleJump nextPos escapedIfMove st =
     (case st of (b, timers) \<Rightarrow>
        (b\<lparr>isAnimating := True,
           lobster := (lobster b)\<lparr>rotation := getRotationForDirection (lobster b) nextPos\<rparr>\<rparr>,
         timers @ [TurnTimer nextPos escapedIfMove]))"

text \<open>
  \<^verbatim>\<open>triggerEscapeAnimation(tile)\<close>; \<open>tile\<close> tells whether \<^verbatim>\<open>getCurrentLobsterTile()\<close> found
  the lobster's tile in the document (the function returns at once on \<^verbatim>\<open>null\<close>).
\<close>

definition triggerEscapeAnimation ::
  "bool \<Rightarrow> Game1Board \<times> timer list \<Rightarrow> Game1Board \<times> timer list"
where
  "triggerEscapeAnimation tile st =
     (case st of (b, timers) \<Rightarrow>
        if \<not> tile then (b, timers)
        else
          let x = fst (position (lobster b));
              y = snd (position (lobster b));
              rot = (if y = 0 then 0
                     else if y = gridHeight b - 1 then 180
                     else if x = 0 then 270
                     else if x = gridWidth b - 1 then 90
                     else js_rem (rotation (lobster b)) 360)
          in (b\<lparr>isEscaping := True, lobster := (lobster b)\<lparr>rotation := rot\<rparr>\<rparr>,
              timers @ [EscapeTimer]))"

text \<open>
  \<^verbatim>\<open>clickHexTile(x, y)\<close>.  \<open>tile\<close> tells whether the lobster's tile is found in the document
  after a capture: only then is the chain of callbacks that ends in \<^verbatim>\<open>reset()\<close> started.
  The result is \<open>None\<close> only if the search of \<^verbatim>\<open>getNextStep\<close> does not return.
\<close>

definition clickHexTile ::
  "bool \<Rightarrow> int \<Rightarrow> int \<Rightarrow> Game1Board \<times> timer list \<Rightarrow> (Game1Board \<times> timer list) option"
where
  "clickHexTile tile x y st =
     (case st of (b, timers) \<Rightarrow>
        if gameOver b \<or> gameLost b \<or> isAnimating b \<or> isEscaping b then Some (b, timers)
        else
          let key = (x, y) in
          if key = position (lobster b) then Some (b, timers)
          else if key \<in> blockedSet b then Some (b, timers)
          else
            let b1 = b\<lparr>blockedSet := insert key (blockedSet b)\<rparr> in
            (case getNextStep (lobster b1) (blockedSet b1) (boardSquares b1)
                    (gridWidth b1) (gridHeight b1) of
               None \<Rightarrow> None
             | Some (None, escapedIfMove) \<Rightarrow>
                 Some (b1\<lparr>gameOver := True\<rparr>, if tile then timers @ [CaughtTimer] else timers)
             | Some (Some nextPos, escapedIfMove) \<Rightarrow>
                 Some (animateTurnWiggleJump nextPos escapedIfMove (b1, timers))))"

text \<open>
  A timer fires.  \<open>tile\<close> is the result of \<^verbatim>\<open>getCurrentLobsterTile()\<close> at that moment and
  \<open>draws\<close> the random numbers that a \<^verbatim>\<open>reset()\<close> consumes.
\<close>

fun fireTimer ::
  "timer \<Rightarrow> bool \<Rightarrow> nat list \<Rightarrow> Game1Board \<times> timer list \<Rightarrow> (Game1Board \<times> timer list) option"
where
  "fireTimer (TurnTimer nextPos escapedIfMove) tile draws (b, timers) =
     Some (b, timers @ [WiggleTimer nextPos escapedIfMove])"
| "fireTimer (WiggleTimer nextPos escapedIfMove) tile draws (b, timers) =
     Some (b\<lparr>lobster := (lobster b)\<lparr>position := nextPos\<rparr>\<rparr>, timers @ [JumpTimer escapedIfMove])"
| "fireTimer (JumpTimer escapedIfMove) tile draws (b, timers) =
     (let b1 = b\<lparr>isAnimating := False\<rparr>
      in if escapedIfMove then Some (triggerEscapeAnimation tile (b1, timers))
         else Some (b1, timers))"
| "fireTimer EscapeTimer tile draws (b, timers) =
     map_option (\<lambda>b'. (b', timers)) (reset draws (b\<lparr>isEscaping := False\<rparr>))"
| "fireTimer CaughtTimer tile draws (b, timers) =
     map_option (\<lambda>b'. (b', timers)) (reset draws b)"

text \<open>
  The events of a round: a click on the tile \<open>(x, y)\<close>, the firing of the pending timer
  number \<open>i\<close>, and the restart button (\<^verbatim>\<open>resetGame1Round\<close>).  Pending timers may fire in any
  order here, which covers the order of their delays.
\<close>

datatype event =
    Click int int bool
  | Fire nat bool "nat list"
  | Restart "nat list"

fun step :: "event \<Rightarrow> Game1Board \<times> timer list \<Rightarrow> (Game1Board \<times> timer list) option" where
  "step (Click x y tile) st = clickHexTile tile x y st"
| "step (Fire i tile draws) (b, timers) =
     (if i < length timers
      then fireTimer (timers ! i) tile draws (b, take i timers @ drop (Suc i) timers)
      else None)"
| "step (Restart draws) (b, timers) = map_option (\<lambda>b'. (b', timers)) (reset draws b)"

fun run :: "event list \<Rightarrow> Game1Board \<times> timer list \<Rightarrow> (Game1Board \<times> timer list) option" where
  "run [] st = Some st"
| "run (e # es) st = (case step e st of None \<Rightarrow> None | Some st' \<Rightarrow> run es st')"

declare walkParents.simps [code]
declare bfsLoop.simps [code]

section \<open>Routes and the invariant of the search\<close>

text \<open>
  A route: a non-empty list of squares in which every square after the first is one of the
  six neighbours of the square before it, is on the board and carries no rock.
\<close>

fun validRoute :: "HexGridSquare set \<Rightarrow> HexGridSquare list \<Rightarrow> HexGridSquare list \<Rightarrow> bool" where
  "validRoute blocked board [] = False"
| "validRoute blocked board [c] = True"
| "validRoute blocked board (c # d # rest) =
     (d \<in> set (getNeighbors c) \<and> d \<in> set board \<and> d \<notin> blocked \<and>
      validRoute blocked board (d # rest))"

text \<open>An escape route leads from the start to a square on the edge of the grid.\<close>

definition escapeRoute ::
  "HexGridSquare set \<Rightarrow> HexGridSquare list \<Rightarrow> int \<Rightarrow> int \<Rightarrow> HexGridSquare \<Rightarrow>
   HexGridSquare list \<Rightarrow> bool"
where
  "escapeRoute blocked board w h start p \<longleftrightarrow>
     validRoute blocked board p \<and> hd p = start \<and> isBoundary w h (last p)"

text \<open>The same routes, built from the start by adding one square at the end.\<close>

inductive walk :: "HexGridSquare set \<Rightarrow> HexGridSquare list \<Rightarrow> HexGridSquare \<Rightarrow> HexGridSquare list \<Rightarrow> bool"
  for blocked board start
where
  walk_start: "walk blocked board start [start]"
| walk_step: "walk blocked board start p \<Longrightarrow> d \<in> set (getNeighbors (last p)) \<Longrightarrow>
     d \<in> set board \<Longrightarrow> d \<notin> blocked \<Longrightarrow> walk blocked board start (p @ [d])"

text \<open>
  \<open>chain parent c p\<close>: following the parent pointers from \<open>c\<close> ends at a key mapped to
  \<^verbatim>\<open>null\<close>, and \<open>p\<close> lists the keys passed, the last one first.
\<close>

inductive chain :: "parent_map \<Rightarrow> HexGridSquare \<Rightarrow> HexGridSquare list \<Rightarrow> bool"
  for parent
where
  chain_root: "parent c = Some None \<Longrightarrow> chain parent c [c]"
| chain_link: "parent c = Some (Some q) \<Longrightarrow> chain parent q p \<Longrightarrow> chain parent c (p @ [c])"

text \<open>The test of the inner loop: the key is not yet in \<^verbatim>\<open>parent\<close>, on the board, not blocked.\<close>

definition fresh :: "HexGridSquare set \<Rightarrow> HexGridSquare list \<Rightarrow> parent_map \<Rightarrow> HexGridSquare \<Rightarrow> bool" where
  "fresh blocked board parent d \<longleftrightarrow> parent d = None \<and> d \<in> set board \<and> d \<notin> blocked"

text \<open>
  The invariant of the outer loop.  \<open>pth c\<close> is the route that the parent pointers give
  for a visited \<open>c\<close>; it is a route from the start, no longer than any other route to
  \<open>c\<close>.  A visited square that has left the queue is not on the edge and all its free
  neighbours are visited.  Along the queue the routes grow in length, by one at most.
\<close>

definition bfsInv ::
  "HexGridSquare set \<Rightarrow> HexGridSquare list \<Rightarrow> int \<Rightarrow> int \<Rightarrow> HexGridSquare \<Rightarrow>
   (HexGridSquare \<Rightarrow> HexGridSquare list) \<Rightarrow> HexGridSquare list \<Rightarrow> parent_map \<Rightarrow> bool"
where
  "bfsInv blocked board w h start pth queue parent \<longleftrightarrow>
     parent start \<noteq> None \<and>
     (\<forall>c. parent c \<noteq> None \<longrightarrow> chain parent c (pth c) \<and> walk blocked board start (pth c)) \<and>
     (\<forall>c p. parent c \<noteq> None \<longrightarrow> walk blocked board start p \<longrightarrow> last p = c \<longrightarrow>
        length (pth c) \<le> length p) \<and>
     (\<forall>c. parent c \<noteq> None \<longrightarrow> c \<notin> set queue \<longrightarrow>
        \<not> isBoundary w h c \<and>
        (\<forall>d \<in> set (getNeighbors c). d \<in> set board \<longrightarrow> d \<notin> blocked \<longrightarrow> parent d \<noteq> None)) \<and>
     (\<forall>c \<in> set queue. parent c \<noteq> None) \<and>
     sorted (map (\<lambda>c. length (pth c)) queue) \<and>
     (\<forall>a \<in> set queue. \<forall>b \<in> set queue. length (pth b) \<le> Suc (length (pth a)))"

text \<open>The keys that one run of the inner loop enqueues, in the order of the neighbours.\<close>

definition newKeys :: "HexGridSquare set \<Rightarrow> HexGridSquare list \<Rightarrow> parent_map \<Rightarrow> HexGridSquare \<Rightarrow> HexGridSquare list" where
  "newKeys blocked board parent key = filter (fresh blocked board parent) (getNeighbors key)"

text \<open>The number of board squares not yet in \<^verbatim>\<open>parent\<close>.\<close>

definition unseen :: "HexGridSquare list \<Rightarrow> parent_map \<Rightarrow> nat" where
  "unseen board parent = card (set board - {c. parent c \<noteq> None})"

section \<open>Accepted clicks and boards of the examples\<close>

text \<open>A click that passes the three guards at the head of \<^verbatim>\<open>clickHexTile\<close>.\<close>

definition acceptsClick :: "Game1Board \<Rightarrow> int \<Rightarrow> int \<Rightarrow> bool" where
  "acceptsClick b x y \<longleftrightarrow>
     \<not> gameOver b \<and> \<not> gameLost b \<and> \<not> isAnimating b \<and> \<not> isEscaping b \<and>
     (x, y) \<noteq> position (lobster b) \<and> (x, y) \<notin> blockedSet b"

text \<open>The lobster at its spawn with five of its six neighbours blocked.\<close>

definition corneredBoard :: Game1Board where
  "corneredBoard = openBoard\<lparr>blockedSet := {(4, 5), (6, 5), (5, 4), (6, 4), (5, 6)}\<rparr>"

text \<open>The open board with the lobster one row above the lower edge.\<close>

definition nearEdgeBoard :: Game1Board where
  "nearEdgeBoard = openBoard\<lparr>lobster := \<lparr>position = (5, 8), rotation = 0\<rparr>\<rparr>"

section \<open>The invariant of a round\<close>

text \<open>The invariant of a round: what has to hold of the board and of the pending timer.\<close>

fun timerOk :: "Game1Board \<Rightarrow> timer \<Rightarrow> bool" where
  "timerOk b (TurnTimer n e) \<longleftrightarrow> isAnimating b \<and> n \<notin> blockedSet b"
| "timerOk b (WiggleTimer n e) \<longleftrightarrow> isAnimating b \<and> n \<notin> blockedSet b"
| "timerOk b (JumpTimer e) \<longleftrightarrow> isAnimating b"
| "timerOk b EscapeTimer \<longleftrightarrow> isEscaping b"
| "timerOk b CaughtTimer \<longleftrightarrow> gameOver b"

definition gameInv :: "Game1Board \<times> timer list \<Rightarrow> bool" where
  "gameInv st \<longleftrightarrow>
     (case st of (b, ts) \<Rightarrow>
        position (lobster b) \<notin> blockedSet b \<and> length ts \<le> 1 \<and> list_all (timerOk b) ts)"

fun isRestart :: "event \<Rightarrow> bool" where
  "isRestart (Restart draws) = True"
| "isRestart (Click x y tile) = False"
| "isRestart (Fire i tile draws) = False"

section \<open>The order of discovery\<close>

text \<open>The position of the first occurrence of an element in a list.\<close>

fun indexOf :: "'a list \<Rightarrow> 'a \<Rightarrow> nat" where
  "indexOf [] a = 0"
| "indexOf (b # bs) a = (if a = b then 0 else Suc (indexOf bs a))"

text \<open>
  The steps of a route, each as the position that the next square has in the table of
  neighbours of the square before it.
\<close>

fun dirCode :: "HexGridSquare list \<Rightarrow> nat list" where
  "dirCode (c # d # rest) = indexOf (getNeighbors c) d # dirCode (d # rest)"
| "dirCode p = []"

text \<open>
  The order of discovery on the codes of routes: a shorter code comes first, and among
  codes of one length the lexicographically smaller one.
\<close>

fun lexLess :: "nat list \<Rightarrow> nat list \<Rightarrow> bool" where
  "lexLess (x # xs) (y # ys) \<longleftrightarrow> x < y \<or> (x = y \<and> lexLess xs ys)"
| "lexLess xs ys \<longleftrightarrow> False"

definition earlier :: "nat list \<Rightarrow> nat list \<Rightarrow> bool" where
  "earlier xs ys \<longleftrightarrow> length xs < length ys \<or> (length xs = length ys \<and> lexLess xs ys)"

text \<open>
  The second invariant of the outer loop: the route that the parent pointers give for a
  visited square is the first among the routes to it; the queue is in the order of
  discovery; and a square of the deeper level in the queue was reached from a square that
  comes before every queued square of the level above.
\<close>

definition bfsOrd ::
  "HexGridSquare set \<Rightarrow> HexGridSquare list \<Rightarrow> HexGridSquare \<Rightarrow>
   (HexGridSquare \<Rightarrow> HexGridSquare list) \<Rightarrow> HexGridSquare list \<Rightarrow> parent_map \<Rightarrow> bool"
where
  "bfsOrd blocked board start pth queue parent \<longleftrightarrow>
     (\<forall>c p. parent c \<noteq> None \<longrightarrow> walk blocked board start p \<longrightarrow> last p = c \<longrightarrow>
        dirCode (pth c) = dirCode p \<or> earlier (dirCode (pth c)) (dirCode p)) \<and>
     sorted_wrt (\<lambda>a b. earlier (dirCode (pth a)) (dirCode (pth b))) queue \<and>
     (\<forall>a \<in> set queue. \<forall>b \<in> set queue. length (pth a) = Suc (length (pth b)) \<longrightarrow>
        earlier (dirCode (butlast (pth a))) (dirCode (pth b)))"

section \<open>Correctness of the search\<close>

lemma walk_nonempty: "walk blocked board start p \<Longrightarrow> p \<noteq> []"
  by (induction rule: walk.induct) auto

lemma walk_hd: "walk blocked board start p \<Longrightarrow> hd p = start"
  by (induction rule: walk.induct) (auto simp: walk_nonempty)

lemma validRoute_snoc:
  "validRoute blocked board p \<Longrightarrow> d \<in> set (getNeighbors (last p)) \<Longrightarrow> d \<in> set board \<Longrightarrow>
   d \<notin> blocked \<Longrightarrow> validRoute blocked board (p @ [d])"
  by (induction blocked board p rule: validRoute.induct) auto

lemma validRoute_snocD:
  "validRoute blocked board (p @ [d]) \<Longrightarrow> p \<noteq> [] \<Longrightarrow>
   validRoute blocked board p \<and> d \<in> set (getNeighbors (last p)) \<and> d \<in> set board \<and> d \<notin> blocked"
  by (induction blocked board p rule: validRoute.induct) auto

lemma walk_validRoute: "walk blocked board start p \<Longrightarrow> validRoute blocked board p"
  by (induction rule: walk.induct) (auto intro: validRoute_snoc)

lemma validRoute_walk: "validRoute blocked board p \<Longrightarrow> walk blocked board (hd p) p"
proof (induction p rule: rev_induct)
  case Nil
  then show ?case by simp
next
  case (snoc d p)
  show ?case
  proof (cases "p = []")
    case True
    then show ?thesis by (simp add: walk_start)
  next
    case False
    with snoc.prems have v: "validRoute blocked board p"
      and s: "d \<in> set (getNeighbors (last p))" "d \<in> set board" "d \<notin> blocked"
      using validRoute_snocD by blast+
    from snoc.IH [OF v] have "walk blocked board (hd p) p" .
    then have "walk blocked board (hd p) (p @ [d])" using s by (rule walk_step)
    with False show ?thesis by simp
  qed
qed

lemma walkParents_chain:
  "chain parent c p \<Longrightarrow> walkParents parent (Some c) acc = Some (p @ acc)"
proof (induction arbitrary: acc rule: chain.induct)
  case (chain_root c)
  then show ?case by (simp add: walkParents.simps)
next
  case (chain_link c q p)
  have "walkParents parent (Some c) acc = walkParents parent (Some q) (c # acc)"
    using chain_link.hyps(1) by (subst walkParents.simps) simp
  then show ?case using chain_link.IH by simp
qed

lemma chain_last: "chain parent c p \<Longrightarrow> last p = c"
  by (induction rule: chain.induct) auto

lemma chain_ext:
  assumes "chain parent c p" and ext: "\<And>a. parent a \<noteq> None \<Longrightarrow> parent' a = parent a"
  shows "chain parent' c p"
  using assms(1)
proof (induction rule: chain.induct)
  case (chain_root c)
  have "parent' c = parent c" by (rule ext) (simp add: chain_root)
  then show ?case using chain_root by (simp add: chain.chain_root)
next
  case (chain_link c q p)
  have "parent' c = parent c" by (rule ext) (simp add: chain_link.hyps)
  then have "parent' c = Some (Some q)" using chain_link.hyps by simp
  then show ?case using chain_link.IH by (rule chain.chain_link)
qed

lemma distinct_getNeighbors: "distinct (getNeighbors c)"
  by (simp add: getNeighbors_def directions_def Let_def)

lemma foldl_visit:
  "distinct ns \<Longrightarrow>
   foldl (visit blocked board key) (q, parent) ns =
     (q @ filter (fresh blocked board parent) ns,
      \<lambda>c. if c \<in> set ns \<and> fresh blocked board parent c then Some (Some key) else parent c)"
proof (induction ns arbitrary: q parent)
  case Nil
  then show ?case by simp
next
  case (Cons n ns)
  have d: "distinct ns" and nn: "n \<notin> set ns" using Cons.prems by auto
  show ?case
  proof (cases "fresh blocked board parent n")
    case True
    let ?par = "parent(n \<mapsto> Some key)"
    have eq: "fresh blocked board ?par c = fresh blocked board parent c" if "c \<in> set ns" for c
      using nn that by (simp add: fresh_def) blast
    have f: "filter (fresh blocked board ?par) ns = filter (fresh blocked board parent) ns"
      by (rule filter_cong [OF refl]) (rule eq)
    have v: "visit blocked board key (q, parent) n = (q @ [n], ?par)"
      using True by (simp add: visit_def fresh_def)
    have g: "(\<lambda>c. if c \<in> set ns \<and> fresh blocked board ?par c then Some (Some key) else ?par c) =
          (\<lambda>c. if c \<in> set (n # ns) \<and> fresh blocked board parent c then Some (Some key) else parent c)"
    proof
      fix c
      show "(if c \<in> set ns \<and> fresh blocked board ?par c then Some (Some key) else ?par c) =
          (if c \<in> set (n # ns) \<and> fresh blocked board parent c then Some (Some key) else parent c)"
      proof (cases "c = n")
        case True
        with nn \<open>fresh blocked board parent n\<close> show ?thesis by simp
      next
        case False
        then show ?thesis using eq [of c] by (cases "c \<in> set ns") simp_all
      qed
    qed
    show ?thesis
    proof -
      have "foldl (visit blocked board key) (q, parent) (n # ns) =
            foldl (visit blocked board key) (q @ [n], ?par) ns"
        by (simp add: v)
      also have "\<dots> = ((q @ [n]) @ filter (fresh blocked board ?par) ns,
           \<lambda>c. if c \<in> set ns \<and> fresh blocked board ?par c then Some (Some key) else ?par c)"
        by (rule Cons.IH [OF d])
      also have "\<dots> = (q @ filter (fresh blocked board parent) (n # ns),
           \<lambda>c. if c \<in> set (n # ns) \<and> fresh blocked board parent c then Some (Some key) else parent c)"
        unfolding f g using True by simp
      finally show ?thesis .
    qed
  next
    case False
    have v: "visit blocked board key (q, parent) n = (q, parent)"
      using False by (simp add: visit_def fresh_def)
    have g: "(\<lambda>c. if c \<in> set ns \<and> fresh blocked board parent c then Some (Some key) else parent c) =
          (\<lambda>c. if c \<in> set (n # ns) \<and> fresh blocked board parent c then Some (Some key) else parent c)"
    proof
      fix c
      show "(if c \<in> set ns \<and> fresh blocked board parent c then Some (Some key) else parent c) =
          (if c \<in> set (n # ns) \<and> fresh blocked board parent c then Some (Some key) else parent c)"
        using False by (cases "c = n") simp_all
    qed
    show ?thesis
    proof -
      have "foldl (visit blocked board key) (q, parent) (n # ns) =
            foldl (visit blocked board key) (q, parent) ns"
        by (simp add: v)
      also have "\<dots> = (q @ filter (fresh blocked board parent) ns,
           \<lambda>c. if c \<in> set ns \<and> fresh blocked board parent c then Some (Some key) else parent c)"
        by (rule Cons.IH [OF d])
      also have "\<dots> = (q @ filter (fresh blocked board parent) (n # ns),
           \<lambda>c. if c \<in> set (n # ns) \<and> fresh blocked board parent c then Some (Some key) else parent c)"
        unfolding g using False by simp
      finally show ?thesis .
    qed
  qed
qed

lemma bfsInv_start: "bfsInv blocked board w h start pth queue parent \<Longrightarrow> parent start \<noteq> None"
  unfolding bfsInv_def by blast

lemma bfsInv_chain:
  "bfsInv blocked board w h start pth queue parent \<Longrightarrow> parent c \<noteq> None \<Longrightarrow> chain parent c (pth c)"
  unfolding bfsInv_def by blast

lemma bfsInv_walk:
  "bfsInv blocked board w h start pth queue parent \<Longrightarrow> parent c \<noteq> None \<Longrightarrow>
   walk blocked board start (pth c)"
  unfolding bfsInv_def by blast

lemma bfsInv_short:
  "bfsInv blocked board w h start pth queue parent \<Longrightarrow> parent (last p) \<noteq> None \<Longrightarrow>
   walk blocked board start p \<Longrightarrow> length (pth (last p)) \<le> length p"
  unfolding bfsInv_def by blast

lemma bfsInv_done_inner:
  "bfsInv blocked board w h start pth queue parent \<Longrightarrow> parent c \<noteq> None \<Longrightarrow> c \<notin> set queue \<Longrightarrow>
   \<not> isBoundary w h c"
  unfolding bfsInv_def by blast

lemma bfsInv_done_closed:
  "bfsInv blocked board w h start pth queue parent \<Longrightarrow> parent c \<noteq> None \<Longrightarrow> c \<notin> set queue \<Longrightarrow>
   d \<in> set (getNeighbors c) \<Longrightarrow> d \<in> set board \<Longrightarrow> d \<notin> blocked \<Longrightarrow> parent d \<noteq> None"
  unfolding bfsInv_def by blast

lemma bfsInv_queue:
  "bfsInv blocked board w h start pth queue parent \<Longrightarrow> c \<in> set queue \<Longrightarrow> parent c \<noteq> None"
  unfolding bfsInv_def by blast

lemma bfsInv_sorted:
  "bfsInv blocked board w h start pth queue parent \<Longrightarrow> sorted (map (\<lambda>c. length (pth c)) queue)"
  unfolding bfsInv_def by blast

lemma bfsInv_band:
  "bfsInv blocked board w h start pth queue parent \<Longrightarrow> a \<in> set queue \<Longrightarrow> b \<in> set queue \<Longrightarrow>
   length (pth b) \<le> Suc (length (pth a))"
  unfolding bfsInv_def by blast

lemma bfsInv_head_least:
  assumes "bfsInv blocked board w h start pth (key # rest) parent" and "q \<in> set (key # rest)"
  shows "length (pth key) \<le> length (pth q)"
  using bfsInv_sorted [OF assms(1)] assms(2) by auto

text \<open>A walk that ends outside the finished part of the search has passed through the queue.\<close>

lemma frontier:
  assumes inv: "bfsInv blocked board w h start pth queue parent"
    and w: "walk blocked board start p"
    and un: "parent (last p) = None \<or> last p \<in> set queue"
  shows "\<exists>q \<in> set queue. length (pth q) \<le> length p"
  using w un
proof (induction rule: walk.induct)
  case walk_start
  have "start \<in> set queue" using walk_start bfsInv_start [OF inv] by simp
  moreover have "length (pth start) \<le> length [start]"
    using bfsInv_short [OF inv, of "[start]"] bfsInv_start [OF inv] walk.walk_start by simp
  ultimately show ?case by blast
next
  case (walk_step p d)
  show ?case
  proof (cases "parent (last p) = None \<or> last p \<in> set queue")
    case True
    from walk_step.IH [OF True] obtain q where "q \<in> set queue" "length (pth q) \<le> length p"
      by blast
    then show ?thesis by (intro bexI [of _ q]) simp_all
  next
    case False
    then have "parent d \<noteq> None"
      using bfsInv_done_closed [OF inv _ _ walk_step.hyps(2,3,4)] by blast
    with walk_step.prems have dq: "d \<in> set queue" by simp
    have "walk blocked board start (p @ [d])"
      using walk_step.hyps by (rule walk.walk_step)
    from bfsInv_short [OF inv _ this] \<open>parent d \<noteq> None\<close>
    have "length (pth d) \<le> length (p @ [d])" by simp
    with dq show ?thesis by blast
  qed
qed

lemma frontier_unvisited:
  assumes inv: "bfsInv blocked board w h start pth queue parent"
    and w: "walk blocked board start p"
    and un: "parent (last p) = None"
  shows "\<exists>q \<in> set queue. Suc (length (pth q)) \<le> length p"
  using w un
proof (cases rule: walk.cases)
  case walk_start
  then show ?thesis using un bfsInv_start [OF inv] by simp
next
  case (walk_step p' d)
  have "parent (last p') = None \<or> last p' \<in> set queue"
  proof (rule ccontr)
    assume "\<not> ?thesis"
    then have "parent d \<noteq> None"
      using bfsInv_done_closed [OF inv _ _ walk_step(3,4,5)] by blast
    with un walk_step(1) show False by simp
  qed
  from frontier [OF inv walk_step(2) this]
  obtain q where "q \<in> set queue" "length (pth q) \<le> length p'" by blast
  then show ?thesis using walk_step(1) by (intro bexI [of _ q]) simp_all
qed

lemma sorted_map_const: "(\<And>x. x \<in> set xs \<Longrightarrow> f x = (k::nat)) \<Longrightarrow> sorted (map f xs)"
  by (induction xs) auto

lemma bfsInv_step:
  assumes inv: "bfsInv blocked board w h start pth (key # rest) parent"
    and nb: "\<not> isBoundary w h key"
    and N: "N = filter (fresh blocked board parent) (getNeighbors key)"
    and par': "parent' = (\<lambda>c. if c \<in> set N then Some (Some key) else parent c)"
    and pth': "pth' = (\<lambda>c. if c \<in> set N then pth key @ [c] else pth c)"
  shows "bfsInv blocked board w h start pth' (rest @ N) parent'"
proof -
  have Nfresh: "parent c = None \<and> c \<in> set (getNeighbors key) \<and> c \<in> set board \<and> c \<notin> blocked"
    if "c \<in> set N" for c
    using that N by (simp add: fresh_def)
  have Nin: "c \<in> set N"
    if "c \<in> set (getNeighbors key)" "c \<in> set board" "c \<notin> blocked" "parent c = None" for c
    using that N by (simp add: fresh_def)
  have keyv: "parent key \<noteq> None" using bfsInv_queue [OF inv, of key] by simp
  have old: "c \<notin> set N" if "parent c \<noteq> None" for c
    using that Nfresh [of c] by auto
  have ext: "parent' a = parent a" if "parent a \<noteq> None" for a
    using old [OF that] by (simp add: par')
  have oldp: "pth' c = pth c" if "parent c \<noteq> None" for c
    using old [OF that] by (simp add: pth')
  have newp: "pth' c = pth key @ [c]" if "c \<in> set N" for c
    using that by (simp add: pth')
  have newv: "parent' c = Some (Some key)" if "c \<in> set N" for c
    using that by (simp add: par')
  have vis: "parent c \<noteq> None \<or> c \<in> set N" if "parent' c \<noteq> None" for c
    using that by (cases "c \<in> set N") (simp_all add: par')
  have ck: "chain parent key (pth key)" by (rule bfsInv_chain [OF inv keyv])
  have wk: "walk blocked board start (pth key)" by (rule bfsInv_walk [OF inv keyv])
  have lk: "last (pth key) = key" by (rule chain_last [OF ck])
  have ck': "chain parent' key (pth key)" using ck ext by (rule chain_ext)

  have c1: "parent' start \<noteq> None"
    using ext [OF bfsInv_start [OF inv]] bfsInv_start [OF inv] by simp
  have c2: "\<forall>c. parent' c \<noteq> None \<longrightarrow> chain parent' c (pth' c) \<and> walk blocked board start (pth' c)"
  proof (intro allI impI)
    fix c assume v: "parent' c \<noteq> None"
    show "chain parent' c (pth' c) \<and> walk blocked board start (pth' c)"
    proof (cases "c \<in> set N")
      case True
      have "chain parent' c (pth key @ [c])"
        using newv [OF True] ck' by (rule chain.chain_link)
      moreover have "walk blocked board start (pth key @ [c])"
        using wk Nfresh [OF True] lk by (intro walk.walk_step) simp_all
      ultimately show ?thesis by (simp add: newp [OF True])
    next
      case False
      with vis [OF v] have pv: "parent c \<noteq> None" by simp
      have "chain parent' c (pth c)"
        using bfsInv_chain [OF inv pv] ext by (rule chain_ext)
      then show ?thesis using bfsInv_walk [OF inv pv] by (simp add: oldp [OF pv])
    qed
  qed
  have c3: "\<forall>c p. parent' c \<noteq> None \<longrightarrow> walk blocked board start p \<longrightarrow> last p = c \<longrightarrow>
        length (pth' c) \<le> length p"
  proof (intro allI impI)
    fix c p
    assume v: "parent' c \<noteq> None" and wp: "walk blocked board start p" and lp: "last p = c"
    show "length (pth' c) \<le> length p"
    proof (cases "c \<in> set N")
      case True
      then have "parent (last p) = None" using Nfresh [OF True] lp by simp
      from frontier_unvisited [OF inv wp this]
      obtain q where q: "q \<in> set (key # rest)" "Suc (length (pth q)) \<le> length p" by blast
      have "length (pth key) \<le> length (pth q)" by (rule bfsInv_head_least [OF inv q(1)])
      with q(2) show ?thesis by (simp add: newp [OF True])
    next
      case False
      with vis [OF v] have pv: "parent c \<noteq> None" by simp
      then have "parent (last p) \<noteq> None" using lp by simp
      from bfsInv_short [OF inv this wp] show ?thesis using lp by (simp add: oldp [OF pv])
    qed
  qed
  have c4: "\<forall>c. parent' c \<noteq> None \<longrightarrow> c \<notin> set (rest @ N) \<longrightarrow>
        \<not> isBoundary w h c \<and>
        (\<forall>d \<in> set (getNeighbors c). d \<in> set board \<longrightarrow> d \<notin> blocked \<longrightarrow> parent' d \<noteq> None)"
  proof (intro allI impI)
    fix c assume v: "parent' c \<noteq> None" and nq: "c \<notin> set (rest @ N)"
    then have cN: "c \<notin> set N" and cr: "c \<notin> set rest" by simp_all
    with vis [OF v] have pv: "parent c \<noteq> None" by simp
    show "\<not> isBoundary w h c \<and>
        (\<forall>d \<in> set (getNeighbors c). d \<in> set board \<longrightarrow> d \<notin> blocked \<longrightarrow> parent' d \<noteq> None)"
    proof (cases "c = key")
      case True
      have "parent' d \<noteq> None"
        if d: "d \<in> set (getNeighbors key)" "d \<in> set board" "d \<notin> blocked" for d
      proof (cases "parent d = None")
        case True
        from Nin [OF d True] show ?thesis by (simp add: newv)
      next
        case False
        then show ?thesis by (simp add: ext)
      qed
      with nb True show ?thesis by blast
    next
      case False
      with cr have nk: "c \<notin> set (key # rest)" by simp
      have "parent' d \<noteq> None"
        if d: "d \<in> set (getNeighbors c)" "d \<in> set board" "d \<notin> blocked" for d
      proof -
        have "parent d \<noteq> None" by (rule bfsInv_done_closed [OF inv pv nk d])
        then show ?thesis by (simp add: ext)
      qed
      with bfsInv_done_inner [OF inv pv nk] show ?thesis by blast
    qed
  qed
  have c5: "\<forall>c \<in> set (rest @ N). parent' c \<noteq> None"
  proof
    fix c assume "c \<in> set (rest @ N)"
    then consider "c \<in> set rest" | "c \<in> set N" by auto
    then show "parent' c \<noteq> None"
    proof cases
      case 1
      then have "parent c \<noteq> None" using bfsInv_queue [OF inv, of c] by simp
      then show ?thesis by (simp add: ext)
    next
      case 2
      then show ?thesis by (simp add: newv)
    qed
  qed
  have restp: "pth' c = pth c" if "c \<in> set rest" for c
    using that bfsInv_queue [OF inv, of c] by (intro oldp) simp
  have rest_le: "length (pth c) \<le> Suc (length (pth key))" if "c \<in> set rest" for c
    using bfsInv_band [OF inv, of key c] that by simp
  have rest_ge: "length (pth key) \<le> length (pth c)" if "c \<in> set rest" for c
    using bfsInv_head_least [OF inv, of c] that by simp
  have c6: "sorted (map (\<lambda>c. length (pth' c)) (rest @ N))"
  proof -
    have m: "map (\<lambda>c. length (pth' c)) rest = map (\<lambda>c. length (pth c)) rest"
      by (rule map_cong [OF refl]) (simp add: restp)
    have s1: "sorted (map (\<lambda>c. length (pth' c)) rest)"
      unfolding m using bfsInv_sorted [OF inv] by simp
    have s2: "sorted (map (\<lambda>c. length (pth' c)) N)"
      by (rule sorted_map_const [where k = "Suc (length (pth key))"]) (simp add: newp)
    have s3: "length (pth' x) \<le> length (pth' y)" if "x \<in> set rest" "y \<in> set N" for x y
      using rest_le [OF that(1)] by (simp add: restp [OF that(1)] newp [OF that(2)])
    show ?thesis using s1 s2 s3 by (simp add: sorted_append)
  qed
  have c7: "\<forall>a \<in> set (rest @ N). \<forall>b \<in> set (rest @ N). length (pth' b) \<le> Suc (length (pth' a))"
  proof (intro ballI)
    fix a b assume a: "a \<in> set (rest @ N)" and b: "b \<in> set (rest @ N)"
    have la: "length (pth key) \<le> length (pth' a)"
    proof (cases "a \<in> set N")
      case True
      then show ?thesis by (simp add: newp)
    next
      case False
      with a have "a \<in> set rest" by simp
      then show ?thesis using rest_ge [of a] by (simp add: restp)
    qed
    have lb: "length (pth' b) \<le> Suc (length (pth key))"
    proof (cases "b \<in> set N")
      case True
      then show ?thesis by (simp add: newp)
    next
      case False
      with b have "b \<in> set rest" by simp
      then show ?thesis using rest_le [of b] by (simp add: restp)
    qed
    from la lb show "length (pth' b) \<le> Suc (length (pth' a))" by simp
  qed
  show ?thesis
    unfolding bfsInv_def
    apply (intro conjI)
          apply (rule c1)
         apply (rule c2)
        apply (rule c3)
       apply (rule c4)
      apply (rule c5)
     apply (rule c6)
    apply (rule c7)
    done
qed

lemma bfsInv_init:
  "bfsInv blocked board w h start (\<lambda>c. [start]) [start] (Map.empty(start \<mapsto> None))"
proof -
  let ?parent = "(Map.empty(start \<mapsto> None)) :: parent_map"
  have v: "c = start" if "?parent c \<noteq> None" for c
    using that by (cases "c = start") simp_all
  have c2: "\<forall>c. ?parent c \<noteq> None \<longrightarrow> chain ?parent c [start] \<and> walk blocked board start [start]"
  proof (intro allI impI)
    fix c assume "?parent c \<noteq> None"
    then have "c = start" by (rule v)
    then show "chain ?parent c [start] \<and> walk blocked board start [start]"
      by (simp add: chain.chain_root walk.walk_start)
  qed
  have c3: "\<forall>c p. ?parent c \<noteq> None \<longrightarrow> walk blocked board start p \<longrightarrow> last p = c \<longrightarrow>
        length [start] \<le> length p"
  proof (intro allI impI)
    fix c p assume "walk blocked board start p"
    then have "p \<noteq> []" by (rule walk_nonempty)
    then show "length [start] \<le> length p" by (cases p) simp_all
  qed
  have c4: "\<forall>c. ?parent c \<noteq> None \<longrightarrow> c \<notin> set [start] \<longrightarrow>
        \<not> isBoundary w h c \<and>
        (\<forall>d \<in> set (getNeighbors c). d \<in> set board \<longrightarrow> d \<notin> blocked \<longrightarrow> ?parent d \<noteq> None)"
  proof (intro allI impI)
    fix c assume a: "?parent c \<noteq> None" and b: "c \<notin> set [start]"
    have "c = start" using a by (rule v)
    with b have False by simp
    then show "\<not> isBoundary w h c \<and>
        (\<forall>d \<in> set (getNeighbors c). d \<in> set board \<longrightarrow> d \<notin> blocked \<longrightarrow> ?parent d \<noteq> None)" ..
  qed
  have c1: "?parent start \<noteq> None" by simp
  have c5: "\<forall>c \<in> set [start]. ?parent c \<noteq> None" by simp
  have c6: "sorted (map (\<lambda>c. length [start]) [start])" by simp
  have c7: "\<forall>a \<in> set [start]. \<forall>b \<in> set [start]. length [start] \<le> Suc (length [start])" by simp
  show ?thesis
    unfolding bfsInv_def
    apply (intro conjI)
          apply (rule c1)
         apply (rule c2)
        apply (rule c3)
       apply (rule c4)
      apply (rule c5)
     apply (rule c6)
    apply (rule c7)
    done
qed

lemma expand_eq:
  "expand blocked board key (rest, parent) =
     (rest @ newKeys blocked board parent key,
      \<lambda>c. if c \<in> set (newKeys blocked board parent key) then Some (Some key) else parent c)"
  by (simp add: expand_def newKeys_def foldl_visit [OF distinct_getNeighbors])

lemma unseen_expand:
  "unseen board (snd (expand blocked board key (rest, parent))) +
     length (newKeys blocked board parent key) = unseen board parent"
proof -
  let ?N = "newKeys blocked board parent key"
  let ?V = "{c. parent c \<noteq> None}"
  have d: "distinct ?N" by (simp add: newKeys_def distinct_getNeighbors)
  have sub: "set ?N \<subseteq> set board - ?V" by (auto simp: newKeys_def fresh_def)
  have "{c. snd (expand blocked board key (rest, parent)) c \<noteq> None} = ?V \<union> set ?N"
    by (auto simp: expand_eq)
  then have "set board - {c. snd (expand blocked board key (rest, parent)) c \<noteq> None} =
      (set board - ?V) - set ?N" by blast
  then have "unseen board (snd (expand blocked board key (rest, parent))) =
      card ((set board - ?V) - set ?N)" by (simp add: unseen_def)
  also have "\<dots> = card (set board - ?V) - card (set ?N)"
    using sub by (intro card_Diff_subset) simp_all
  finally have "unseen board (snd (expand blocked board key (rest, parent))) + card (set ?N) =
      card (set board - ?V)"
    using card_mono [OF _ sub] by simp
  then show ?thesis using distinct_card [OF d] by (simp add: unseen_def)
qed

lemma bfs_induct [case_names step]:
  assumes step: "\<And>queue parent.
      (\<And>key rest. queue = key # rest \<Longrightarrow> \<not> isBoundary w h key \<Longrightarrow>
          P (fst (expand blocked board key (rest, parent)))
            (snd (expand blocked board key (rest, parent)))) \<Longrightarrow> P queue parent"
  shows "P queue parent"
proof (induction "length queue + unseen board parent" arbitrary: queue parent rule: less_induct)
  case less
  show ?case
  proof (rule step)
    fix key rest
    assume q: "queue = key # rest" and "\<not> isBoundary w h key"
    let ?e = "expand blocked board key (rest, parent)"
    have "length (fst ?e) + unseen board (snd ?e) + length (newKeys blocked board parent key) =
        length rest + length (newKeys blocked board parent key) + unseen board parent"
      using unseen_expand [of board blocked key rest parent] by (simp add: expand_eq)
    then have "length (fst ?e) + unseen board (snd ?e) < length queue + unseen board parent"
      using q by simp
    then show "P (fst ?e) (snd ?e)" by (rule less.hyps)
  qed
qed

lemma bfsLoop_correct:
  "bfsInv blocked board w h start pth queue parent \<Longrightarrow>
   \<exists>r. bfsLoop blocked board w h queue parent = Some r \<and>
     (case r of
        None \<Rightarrow> (\<forall>p. walk blocked board start p \<longrightarrow> \<not> isBoundary w h (last p))
      | Some rt \<Rightarrow> walk blocked board start rt \<and> isBoundary w h (last rt) \<and>
          (\<forall>p. walk blocked board start p \<longrightarrow> isBoundary w h (last p) \<longrightarrow> length rt \<le> length p))"
proof (induction queue parent arbitrary: pth rule: bfs_induct [where blocked = blocked and board = board and w = w and h = h])
  case (step queue parent)
  note inv = step.prems
  show ?case
  proof (cases queue)
    case Nil
    have "\<not> isBoundary w h (last p)" if wp: "walk blocked board start p" for p
    proof -
      have "\<not> (parent (last p) = None \<or> last p \<in> set queue)"
        using frontier [OF inv wp] Nil by auto
      then show ?thesis using bfsInv_done_inner [OF inv, of "last p"] by blast
    qed
    moreover have "bfsLoop blocked board w h queue parent = Some None"
      using Nil by (subst bfsLoop.simps) simp
    ultimately show ?thesis by simp
  next
    case (Cons key rest)
    have keyv: "parent key \<noteq> None" using bfsInv_queue [OF inv, of key] Cons by simp
    show ?thesis
    proof (cases "isBoundary w h key")
      case True
      have ck: "chain parent key (pth key)" by (rule bfsInv_chain [OF inv keyv])
      have wk: "walk blocked board start (pth key)" by (rule bfsInv_walk [OF inv keyv])
      have lk: "last (pth key) = key" by (rule chain_last [OF ck])
      have res: "bfsLoop blocked board w h queue parent = Some (Some (pth key))"
        using Cons True walkParents_chain [OF ck, of "[]"] by (subst bfsLoop.simps) simp
      have "length (pth key) \<le> length p"
        if wp: "walk blocked board start p" and bp: "isBoundary w h (last p)" for p
      proof -
        have "parent (last p) = None \<or> last p \<in> set queue"
          using bfsInv_done_inner [OF inv, of "last p"] bp by blast
        from frontier [OF inv wp this]
        obtain q where q: "q \<in> set queue" "length (pth q) \<le> length p" by blast
        have "length (pth key) \<le> length (pth q)"
          using bfsInv_head_least [of blocked board w h start pth key rest parent q] inv q(1) Cons
          by simp
        with q(2) show ?thesis by simp
      qed
      with res wk lk True show ?thesis by simp
    next
      case False
      let ?N = "newKeys blocked board parent key"
      let ?par = "\<lambda>c. if c \<in> set ?N then Some (Some key) else parent c"
      let ?pth = "\<lambda>c. if c \<in> set ?N then pth key @ [c] else pth c"
      have inv': "bfsInv blocked board w h start ?pth (rest @ ?N) ?par"
        using inv False unfolding Cons
        by (rule bfsInv_step) (simp_all add: newKeys_def)
      have e: "expand blocked board key (rest, parent) = (rest @ ?N, ?par)" by (rule expand_eq)
      have "bfsLoop blocked board w h queue parent = bfsLoop blocked board w h (rest @ ?N) ?par"
        using Cons False by (subst bfsLoop.simps) (simp add: e)
      moreover from step.IH [OF Cons False, of ?pth] inv'
      have "\<exists>r. bfsLoop blocked board w h (rest @ ?N) ?par = Some r \<and>
        (case r of
           None \<Rightarrow> (\<forall>p. walk blocked board start p \<longrightarrow> \<not> isBoundary w h (last p))
         | Some rt \<Rightarrow> walk blocked board start rt \<and> isBoundary w h (last rt) \<and>
             (\<forall>p. walk blocked board start p \<longrightarrow> isBoundary w h (last p) \<longrightarrow> length rt \<le> length p))"
        by (simp add: e)
      ultimately show ?thesis by simp
    qed
  qed
qed

section \<open>The escape route\<close>

lemma escapeRoute_walk:
  "escapeRoute blocked board w h start p \<longleftrightarrow>
     walk blocked board start p \<and> isBoundary w h (last p)"
  unfolding escapeRoute_def
  using validRoute_walk [of blocked board p] walk_validRoute [of blocked board start p]
    walk_hd [of blocked board start p]
  by blast

lemma findShortestEscapePath_spec:
  "\<exists>r. findShortestEscapePath l blocked board w h = Some r \<and>
     (case r of
        None \<Rightarrow> (\<forall>p. \<not> escapeRoute blocked board w h (position l) p)
      | Some rt \<Rightarrow> escapeRoute blocked board w h (position l) rt \<and>
          (\<forall>p. escapeRoute blocked board w h (position l) p \<longrightarrow> length rt \<le> length p))"
  using bfsLoop_correct [OF bfsInv_init, of blocked board w h "position l"]
  unfolding findShortestEscapePath_def Let_def escapeRoute_walk
  by (auto split: option.splits)

text \<open>
  C1.  If some square on the edge can be reached from the lobster's square through
  neighbouring squares that are on the board and not blocked, findShortestEscapePath
  returns an escape route, and no escape route is shorter; if none can be reached it returns
  null.
\<close>

theorem findShortestEscapePath_shortest:
  "((\<exists>p. escapeRoute blocked board w h (position l) p) \<longrightarrow>
      (\<exists>r. findShortestEscapePath l blocked board w h = Some (Some r) \<and>
           escapeRoute blocked board w h (position l) r \<and>
           (\<forall>p. escapeRoute blocked board w h (position l) p \<longrightarrow> length r \<le> length p))) \<and>
   ((\<forall>p. \<not> escapeRoute blocked board w h (position l) p) \<longrightarrow>
      findShortestEscapePath l blocked board w h = Some None)"
proof -
  obtain r where r: "findShortestEscapePath l blocked board w h = Some r"
    and c: "case r of
        None \<Rightarrow> (\<forall>p. \<not> escapeRoute blocked board w h (position l) p)
      | Some rt \<Rightarrow> escapeRoute blocked board w h (position l) rt \<and>
          (\<forall>p. escapeRoute blocked board w h (position l) p \<longrightarrow> length rt \<le> length p)"
    using findShortestEscapePath_spec [of l blocked board w h] by blast
  show ?thesis
  proof (cases r)
    case None
    with r c show ?thesis by simp
  next
    case (Some rt)
    with r c show ?thesis by auto
  qed
qed

lemma getNeighbors_1_1: "getNeighbors (1, 1) = [(0, 1), (2, 1), (1, 0), (2, 0), (1, 2), (2, 2)]"
  by (simp add: getNeighbors_def directions_def js_rem_def)

lemma gridSquares_3_3:
  "gridSquares 3 3 = [(0, 0), (0, 1), (0, 2), (1, 0), (1, 1), (1, 2), (2, 0), (2, 1), (2, 2)]"
  by code_simp

lemma enclosed_3_3:
  "\<not> escapeRoute {(0, 1), (2, 1), (1, 0), (2, 0), (1, 2), (2, 2)} (gridSquares 3 3) 3 3 (1, 1) p"
proof (cases p)
  case Nil
  then show ?thesis by (simp add: escapeRoute_def)
next
  case (Cons c q)
  show ?thesis
  proof (cases q)
    case Nil
    with Cons show ?thesis by (auto simp: escapeRoute_def isBoundary_def)
  next
    case (Cons d q')
    with \<open>p = c # q\<close> show ?thesis
      by (auto simp: escapeRoute_def getNeighbors_1_1)
  qed
qed

theorem findShortestEscapePath_shortest_witness:
  "escapeRoute {} (gridSquares 3 3) 3 3 (1, 1) [(1, 1), (2, 1)] \<and>
   (\<exists>r. findShortestEscapePath \<lparr>position = (1, 1), rotation = 0\<rparr> {} (gridSquares 3 3) 3 3
           = Some (Some r) \<and>
        escapeRoute {} (gridSquares 3 3) 3 3 (1, 1) r \<and> length r \<le> 2) \<and>
   findShortestEscapePath \<lparr>position = (1, 1), rotation = 0\<rparr>
     {(0, 1), (2, 1), (1, 0), (2, 0), (1, 2), (2, 2)} (gridSquares 3 3) 3 3 = Some None"
proof -
  have e: "escapeRoute {} (gridSquares 3 3) 3 3 (1, 1) [(1, 1), (2, 1)]"
    by (simp add: escapeRoute_def getNeighbors_1_1 gridSquares_3_3 isBoundary_def)
  from findShortestEscapePath_shortest
    [of "{}" "gridSquares 3 3" 3 3 "\<lparr>position = (1, 1), rotation = 0\<rparr>"] e
  obtain r where r:
    "findShortestEscapePath \<lparr>position = (1, 1), rotation = 0\<rparr> {} (gridSquares 3 3) 3 3
       = Some (Some r)"
    "escapeRoute {} (gridSquares 3 3) 3 3 (1, 1) r"
    "\<forall>p. escapeRoute {} (gridSquares 3 3) 3 3 (1, 1) p \<longrightarrow> length r \<le> length p"
    by auto
  from r(3) e have "length r \<le> 2" by fastforce
  moreover have "findShortestEscapePath \<lparr>position = (1, 1), rotation = 0\<rparr>
     {(0, 1), (2, 1), (1, 0), (2, 0), (1, 2), (2, 2)} (gridSquares 3 3) 3 3 = Some None"
    using findShortestEscapePath_shortest
      [of "{(0, 1), (2, 1), (1, 0), (2, 0), (1, 2), (2, 2)}" "gridSquares 3 3" 3 3
          "\<lparr>position = (1, 1), rotation = 0\<rparr>"] enclosed_3_3
    by simp
  ultimately show ?thesis using e r(1,2) by blast
qed

lemma bfsLoopFuel_enough:
  "length queue + unseen board parent < n \<Longrightarrow>
   bfsLoopFuel n blocked board w h queue parent = bfsLoop blocked board w h queue parent"
proof (induction n arbitrary: queue parent)
  case 0
  then show ?case by simp
next
  case (Suc n)
  show ?case
  proof (cases queue)
    case Nil
    then show ?thesis by (simp add: bfsLoop.simps)
  next
    case (Cons key rest)
    show ?thesis
    proof (cases "isBoundary w h key")
      case True
      with Cons show ?thesis by (simp add: bfsLoop.simps)
    next
      case False
      let ?e = "expand blocked board key (rest, parent)"
      have "length (fst ?e) + unseen board (snd ?e) + length (newKeys blocked board parent key) =
          length rest + length (newKeys blocked board parent key) + unseen board parent"
        using unseen_expand [of board blocked key rest parent] by (simp add: expand_eq)
      with Suc.prems Cons have "length (fst ?e) + unseen board (snd ?e) < n" by simp
      from Suc.IH [OF this] Cons False show ?thesis
        by (subst bfsLoop.simps) simp
    qed
  qed
qed

lemma unseen_le: "unseen board parent \<le> length board"
proof -
  have "card (set board - {c. parent c \<noteq> None}) \<le> card (set board)"
    by (rule card_mono) auto
  also have "\<dots> \<le> length board" by (rule card_length)
  finally show ?thesis by (simp add: unseen_def)
qed

text \<open>
  C9.  findShortestEscapePath returns on every input: for every lobster, set of blocked
  keys, board and pair of grid dimensions both loops end, and the result is null or a route.
  The outer loop tests its condition at most (number of board squares + 2) times, since
  every round but the last takes one key off the queue and no board square is enqueued
  twice.
\<close>

theorem findShortestEscapePath_terminates:
  "\<exists>r. findShortestEscapePath l blocked board w h = Some r \<and>
       bfsLoopFuel (length board + 2) blocked board w h
         [position l] (Map.empty(position l \<mapsto> None)) = Some r"
proof -
  obtain r where r: "findShortestEscapePath l blocked board w h = Some r"
    using findShortestEscapePath_spec [of l blocked board w h] by blast
  have "length [position l] + unseen board (Map.empty(position l \<mapsto> None)) < length board + 2"
    using unseen_le [of board "Map.empty(position l \<mapsto> None)"] by simp
  from bfsLoopFuel_enough [OF this, of blocked w h] r show ?thesis
    by (simp add: findShortestEscapePath_def Let_def)
qed

theorem findShortestEscapePath_terminates_witness:
  "\<exists>r. findShortestEscapePath \<lparr>position = (1, 1), rotation = 0\<rparr> {(0, 1)} (gridSquares 3 3) 3 3
         = Some r \<and>
       bfsLoopFuel 11 {(0, 1)} (gridSquares 3 3) 3 3 [(1, 1)] (Map.empty((1, 1) \<mapsto> None)) = Some r"
proof -
  have n: "length (gridSquares 3 3) + 2 = 11" by (simp add: gridSquares_3_3)
  have p: "position \<lparr>position = (1, 1), rotation = 0\<rparr> = (1, 1)" by simp
  show ?thesis
    by (rule findShortestEscapePath_terminates
        [of "\<lparr>position = (1, 1), rotation = 0\<rparr>" "{(0, 1)}" "gridSquares 3 3" 3 3,
         unfolded n p])
qed

text \<open>
  C10.  When the lobster stands on the edge, findShortestEscapePath returns the route
  that consists of the start alone, and getNextStep answers with no next square and
  escapedIfMove false.
\<close>

theorem start_on_boundary:
  "isBoundary w h (position l) \<Longrightarrow>
   findShortestEscapePath l blocked board w h = Some (Some [position l]) \<and>
   getNextStep l blocked board w h = Some (None, False)"
proof -
  assume b: "isBoundary w h (position l)"
  have "walkParents (Map.empty(position l \<mapsto> None)) (Some (position l)) [] = Some [position l]"
    by (simp add: walkParents.simps)
  then have "findShortestEscapePath l blocked board w h = Some (Some [position l])"
    using b unfolding findShortestEscapePath_def Let_def
    by (subst bfsLoop.simps) simp
  then show ?thesis by (simp add: getNextStep_def)
qed

theorem start_on_boundary_witness:
  "isBoundary 11 10 (5, 9) \<and>
   findShortestEscapePath \<lparr>position = (5, 9), rotation = 0\<rparr> {} (gridSquares 11 10) 11 10
     = Some (Some [(5, 9)]) \<and>
   getNextStep \<lparr>position = (5, 9), rotation = 0\<rparr> {} (gridSquares 11 10) 11 10 = Some (None, False)"
proof -
  have b: "isBoundary 11 10 (position \<lparr>position = (5, 9), rotation = 0\<rparr>)"
    by (simp add: isBoundary_def)
  from start_on_boundary [OF b, of "{}" "gridSquares 11 10"] b show ?thesis by simp
qed

section \<open>Clicks and the resolution of a turn\<close>

lemma getNextStep_cases:
  obtains (captured) "getNextStep l blocked board w h = Some (None, False)"
      "findShortestEscapePath l blocked board w h = Some None \<or>
       (\<exists>p. findShortestEscapePath l blocked board w h = Some (Some p) \<and> length p \<le> 1)"
  | (moves) p where "findShortestEscapePath l blocked board w h = Some (Some p)" "1 < length p"
      "getNextStep l blocked board w h = Some (Some (p ! 1), isBoundary w h (p ! 1))"
proof -
  obtain r where r: "findShortestEscapePath l blocked board w h = Some r"
    using findShortestEscapePath_spec [of l blocked board w h] by blast
  show thesis
  proof (cases r)
    case None
    with r have "getNextStep l blocked board w h = Some (None, False)"
      by (simp add: getNextStep_def)
    then show ?thesis using r None by (intro captured) simp_all
  next
    case (Some p)
    show ?thesis
    proof (cases "length p \<le> 1")
      case True
      with r Some have "getNextStep l blocked board w h = Some (None, False)"
        by (simp add: getNextStep_def)
      then show ?thesis using r Some True by (intro captured) simp_all
    next
      case False
      with r Some have "getNextStep l blocked board w h = Some (Some (p ! 1), isBoundary w h (p ! 1))"
        by (simp add: getNextStep_def Let_def)
      then show ?thesis using r Some False by (intro moves [of p]) simp_all
    qed
  qed
qed

lemma clickHexTile_rejected:
  "\<not> acceptsClick b x y \<Longrightarrow> clickHexTile tile x y (b, ts) = Some (b, ts)"
  by (auto simp: clickHexTile_def acceptsClick_def Let_def)

lemma clickHexTile_accepted:
  assumes "acceptsClick b x y"
  shows "clickHexTile tile x y (b, ts) =
    (case getNextStep (lobster b) (insert (x, y) (blockedSet b)) (boardSquares b)
           (gridWidth b) (gridHeight b) of
       None \<Rightarrow> None
     | Some (None, e) \<Rightarrow>
         Some (b\<lparr>blockedSet := insert (x, y) (blockedSet b), gameOver := True\<rparr>,
               if tile then ts @ [CaughtTimer] else ts)
     | Some (Some n, e) \<Rightarrow>
         Some (b\<lparr>blockedSet := insert (x, y) (blockedSet b), isAnimating := True,
                 lobster := (lobster b)\<lparr>rotation := getRotationForDirection (lobster b) n\<rparr>\<rparr>,
               ts @ [TurnTimer n e]))"
  using assms
  by (simp add: clickHexTile_def acceptsClick_def Let_def animateTurnWiggleJump_def
      split: option.splits prod.splits)

lemma initial_squares: "foldl mapSet [] (gridSquares 11 10) = gridSquares 11 10"
  by code_simp

lemma openBoard_eq:
  "openBoard =
     \<lparr>blockedSet = {}, lobster = \<lparr>position = (5, 5), rotation = 0\<rparr>,
      gameOver = False, gameLost = False, isAnimating = False, isEscaping = False,
      gridWidth = 11, gridHeight = 10, boardSquares = gridSquares 11 10\<rparr>"
  by (simp add: openBoard_def spawnLobster_def initializeBoard_def initial_squares)

text \<open>
  C5.  clickHexTile leaves the board and the timers as they are exactly when the round is
  over, lost, animating or escaping, or the tile is the lobster's, or the tile is blocked
  already.  Otherwise the tile joins blockedSet; apart from that the call changes only what
  the resolution of the turn sets (gameOver, isAnimating, the lobster's rotation); and a
  second click on the same tile changes nothing.
\<close>

theorem clickHexTile_rejects:
  "(clickHexTile tile x y (b, ts) = Some (b, ts) \<longleftrightarrow>
      gameOver b \<or> gameLost b \<or> isAnimating b \<or> isEscaping b \<or>
      (x, y) = position (lobster b) \<or> (x, y) \<in> blockedSet b) \<and>
   (acceptsClick b x y \<longrightarrow>
      (\<exists>b' ts'. clickHexTile tile x y (b, ts) = Some (b', ts') \<and>
         b'\<lparr>gameOver := gameOver b, isAnimating := isAnimating b, lobster := lobster b\<rparr> =
           b\<lparr>blockedSet := insert (x, y) (blockedSet b)\<rparr> \<and>
         position (lobster b') = position (lobster b) \<and>
         clickHexTile tile' x y (b', ts') = Some (b', ts')))"
proof -
  have acc: "\<exists>b' ts'. clickHexTile tile x y (b, ts) = Some (b', ts') \<and>
         b'\<lparr>gameOver := gameOver b, isAnimating := isAnimating b, lobster := lobster b\<rparr> =
           b\<lparr>blockedSet := insert (x, y) (blockedSet b)\<rparr> \<and>
         position (lobster b') = position (lobster b) \<and>
         clickHexTile tile' x y (b', ts') = Some (b', ts')"
    if a: "acceptsClick b x y"
  proof (cases rule: getNextStep_cases [of "lobster b" "insert (x, y) (blockedSet b)"
        "boardSquares b" "gridWidth b" "gridHeight b"])
    case captured
    let ?b = "b\<lparr>blockedSet := insert (x, y) (blockedSet b), gameOver := True\<rparr>"
    let ?ts = "if tile then ts @ [CaughtTimer] else ts"
    have "clickHexTile tile x y (b, ts) = Some (?b, ?ts)"
      using captured(1) by (simp add: clickHexTile_accepted [OF a])
    moreover have "clickHexTile tile' x y (?b, ?ts) = Some (?b, ?ts)"
      by (rule clickHexTile_rejected) (simp add: acceptsClick_def)
    ultimately show ?thesis by simp
  next
    case (moves p)
    let ?b = "b\<lparr>blockedSet := insert (x, y) (blockedSet b), isAnimating := True,
        lobster := (lobster b)\<lparr>rotation := getRotationForDirection (lobster b) (p ! 1)\<rparr>\<rparr>"
    let ?ts = "ts @ [TurnTimer (p ! 1) (isBoundary (gridWidth b) (gridHeight b) (p ! 1))]"
    have "clickHexTile tile x y (b, ts) = Some (?b, ?ts)"
      using moves(3) by (simp add: clickHexTile_accepted [OF a])
    moreover have "clickHexTile tile' x y (?b, ?ts) = Some (?b, ?ts)"
      by (rule clickHexTile_rejected) (simp add: acceptsClick_def)
    ultimately show ?thesis by simp
  qed
  have "clickHexTile tile x y (b, ts) \<noteq> Some (b, ts)" if a: "acceptsClick b x y"
  proof
    assume e: "clickHexTile tile x y (b, ts) = Some (b, ts)"
    from acc [OF a] e
    have "b\<lparr>gameOver := gameOver b, isAnimating := isAnimating b, lobster := lobster b\<rparr> =
           b\<lparr>blockedSet := insert (x, y) (blockedSet b)\<rparr>" by auto
    then have "blockedSet b = insert (x, y) (blockedSet b)" by (cases b) simp
    with a show False by (auto simp: acceptsClick_def)
  qed
  moreover have "clickHexTile tile x y (b, ts) = Some (b, ts)" if "\<not> acceptsClick b x y"
    using that by (rule clickHexTile_rejected)
  ultimately have "clickHexTile tile x y (b, ts) = Some (b, ts) \<longleftrightarrow> \<not> acceptsClick b x y"
    by blast
  then show ?thesis using acc by (auto simp: acceptsClick_def)
qed

theorem clickHexTile_rejects_witness:
  "clickHexTile True 5 5 (openBoard, []) = Some (openBoard, []) \<and>
   acceptsClick openBoard 0 0 \<and>
   (\<exists>b' ts'. clickHexTile True 0 0 (openBoard, []) = Some (b', ts') \<and>
      blockedSet b' = {(0, 0)} \<and> position (lobster b') = (5, 5) \<and>
      clickHexTile False 0 0 (b', ts') = Some (b', ts'))"
proof -
  have r: "clickHexTile True 5 5 (openBoard, []) = Some (openBoard, [])"
    using clickHexTile_rejects [of True 5 5 openBoard "[]"] by (simp add: openBoard_eq)
  have a: "acceptsClick openBoard 0 0" by (simp add: acceptsClick_def openBoard_eq)
  from clickHexTile_rejects [of True 0 0 openBoard "[]" False] a
  obtain b' ts' where c: "clickHexTile True 0 0 (openBoard, []) = Some (b', ts')"
    and f: "b'\<lparr>gameOver := gameOver openBoard, isAnimating := isAnimating openBoard,
              lobster := lobster openBoard\<rparr> =
            openBoard\<lparr>blockedSet := insert (0, 0) (blockedSet openBoard)\<rparr>"
    and q: "position (lobster b') = position (lobster openBoard)"
    and d: "clickHexTile False 0 0 (b', ts') = Some (b', ts')"
    by blast
  from arg_cong [OF f, of blockedSet] have "blockedSet b' = {(0, 0)}"
    by (simp add: openBoard_eq)
  moreover from q have "position (lobster b') = (5, 5)" by (simp add: openBoard_eq)
  ultimately show ?thesis using r a c d by blast
qed

text \<open>
  C2.  On an accepted click, when findShortestEscapePath (run with the new rock in place)
  returns null or a route of at most one square, clickHexTile sets gameOver, leaves the
  lobster where it was and schedules no move.
\<close>

theorem capture_keeps_position:
  assumes "acceptsClick b x y"
    and "findShortestEscapePath (lobster b) (insert (x, y) (blockedSet b)) (boardSquares b)
           (gridWidth b) (gridHeight b) = Some None \<or>
         (\<exists>p. findShortestEscapePath (lobster b) (insert (x, y) (blockedSet b)) (boardSquares b)
           (gridWidth b) (gridHeight b) = Some (Some p) \<and> length p \<le> 1)"
  shows "\<exists>b'. clickHexTile tile x y (b, ts) = Some (b', if tile then ts @ [CaughtTimer] else ts) \<and>
     gameOver b' \<and> lobster b' = lobster b \<and> blockedSet b' = insert (x, y) (blockedSet b)"
proof -
  have "getNextStep (lobster b) (insert (x, y) (blockedSet b)) (boardSquares b)
           (gridWidth b) (gridHeight b) = Some (None, False)"
    using assms(2) by (auto simp: getNextStep_def)
  then have "clickHexTile tile x y (b, ts) =
      Some (b\<lparr>blockedSet := insert (x, y) (blockedSet b), gameOver := True\<rparr>,
            if tile then ts @ [CaughtTimer] else ts)"
    by (simp add: clickHexTile_accepted [OF assms(1)])
  then show ?thesis by simp
qed

lemma cornered_search:
  "findShortestEscapePath \<lparr>position = (5, 5), rotation = 0\<rparr>
     {(6, 6), (4, 5), (6, 5), (5, 4), (6, 4), (5, 6)} (gridSquares 11 10) 11 10 = Some None"
  by code_simp

theorem capture_keeps_position_witness:
  "acceptsClick corneredBoard 6 6 \<and>
   (\<exists>b'. clickHexTile True 6 6 (corneredBoard, []) = Some (b', [CaughtTimer]) \<and>
      gameOver b' \<and> position (lobster b') = (5, 5))"
proof -
  have a: "acceptsClick corneredBoard 6 6"
    by (simp add: acceptsClick_def corneredBoard_def openBoard_eq)
  have s: "findShortestEscapePath (lobster corneredBoard) (insert (6, 6) (blockedSet corneredBoard))
      (boardSquares corneredBoard) (gridWidth corneredBoard) (gridHeight corneredBoard) = Some None"
    using cornered_search by (simp add: corneredBoard_def openBoard_eq)
  from capture_keeps_position [OF a disjI1 [OF s], of True "[]"]
  obtain b' where "clickHexTile True 6 6 (corneredBoard, []) = Some (b', [CaughtTimer])"
    "gameOver b'" "lobster b' = lobster corneredBoard" by auto
  moreover have "position (lobster corneredBoard) = (5, 5)"
    by (simp add: corneredBoard_def openBoard_eq)
  ultimately show ?thesis using a by auto
qed

text \<open>
  C3 as stated fails when the lobster's tile is not found in the document at the end of
  the jump: triggerEscapeAnimation returns at once, so the lobster stands on the edge
  square (4, 9) while isEscaping is not set, no reset is pending and the round goes on.
\<close>

theorem escape_without_tile_counterexample:
  "map_option (\<lambda>(b', ts'). (position (lobster b'), isBoundary 11 10 (position (lobster b')),
       isEscaping b', gameOver b', ts'))
     (run [Click 0 0 True, Fire 0 True [], Fire 0 True [], Fire 0 False []] (nearEdgeBoard, []))
   = Some ((4, 9), True, False, False, [])"
  by code_simp

text \<open>
  C3, amended.  On an accepted click whose search returns a route of more than one square,
  getNextStep returns the second square of the route, with escapedIfMove true exactly when
  that square is on the edge of the grid.  After the three timers of the animation have
  fired, the lobster stands on that square; if the square is on the edge and the lobster's
  tile is found in the document, the escape has begun (isEscaping is set and the timer that
  resets the round is pending); if it is not on the edge, the board takes clicks again.
\<close>

theorem move_to_next_square:
  assumes "acceptsClick b x y"
    and "findShortestEscapePath (lobster b) (insert (x, y) (blockedSet b)) (boardSquares b)
           (gridWidth b) (gridHeight b) = Some (Some p)"
    and "1 < length p"
  shows "getNextStep (lobster b) (insert (x, y) (blockedSet b)) (boardSquares b)
           (gridWidth b) (gridHeight b) =
         Some (Some (p ! 1), isBoundary (gridWidth b) (gridHeight b) (p ! 1)) \<and>
     (\<exists>b' ts'.
        run [Click x y tile0, Fire (length ts) tile1 d1, Fire (length ts) tile2 d2,
             Fire (length ts) tile3 d3] (b, ts) = Some (b', ts') \<and>
        position (lobster b') = p ! 1 \<and>
        blockedSet b' = insert (x, y) (blockedSet b) \<and>
        \<not> gameOver b' \<and> \<not> isAnimating b' \<and>
        (isBoundary (gridWidth b) (gridHeight b) (p ! 1) \<and> tile3 \<longrightarrow>
           isEscaping b' \<and> ts' = ts @ [EscapeTimer]) \<and>
        (\<not> isBoundary (gridWidth b) (gridHeight b) (p ! 1) \<longrightarrow>
           \<not> isEscaping b' \<and> ts' = ts))"
proof -
  let ?n = "p ! 1"
  let ?e = "isBoundary (gridWidth b) (gridHeight b) ?n"
  have g: "getNextStep (lobster b) (insert (x, y) (blockedSet b)) (boardSquares b)
           (gridWidth b) (gridHeight b) = Some (Some ?n, ?e)"
    using assms(2,3) by (simp add: getNextStep_def Let_def)
  let ?b1 = "b\<lparr>blockedSet := insert (x, y) (blockedSet b), isAnimating := True,
      lobster := (lobster b)\<lparr>rotation := getRotationForDirection (lobster b) ?n\<rparr>\<rparr>"
  have s1: "step (Click x y tile0) (b, ts) = Some (?b1, ts @ [TurnTimer ?n ?e])"
    using g by (simp add: clickHexTile_accepted [OF assms(1)])
  have s2: "step (Fire (length ts) tile1 d1) (?b1, ts @ [TurnTimer ?n ?e]) =
      Some (?b1, ts @ [WiggleTimer ?n ?e])"
    by simp
  let ?b3 = "?b1\<lparr>lobster := (lobster ?b1)\<lparr>position := ?n\<rparr>\<rparr>"
  have s3: "step (Fire (length ts) tile2 d2) (?b1, ts @ [WiggleTimer ?n ?e]) =
      Some (?b3, ts @ [JumpTimer ?e])"
    by simp
  let ?b4 = "?b3\<lparr>isAnimating := False\<rparr>"
  have s4: "step (Fire (length ts) tile3 d3) (?b3, ts @ [JumpTimer ?e]) =
      Some (if ?e then triggerEscapeAnimation tile3 (?b4, ts) else (?b4, ts))"
    by (simp add: Let_def)
  obtain b' ts' where r: "(if ?e then triggerEscapeAnimation tile3 (?b4, ts) else (?b4, ts)) = (b', ts')"
    by (cases "if ?e then triggerEscapeAnimation tile3 (?b4, ts) else (?b4, ts)") blast
  have run: "run [Click x y tile0, Fire (length ts) tile1 d1, Fire (length ts) tile2 d2,
             Fire (length ts) tile3 d3] (b, ts) = Some (b', ts')"
    by (simp only: run.simps s1 s2 s3 s4 r option.case)
  have acc: "\<not> gameOver b" "\<not> isEscaping b" using assms(1) by (simp_all add: acceptsClick_def)
  have props: "position (lobster b') = ?n \<and> blockedSet b' = insert (x, y) (blockedSet b) \<and>
        \<not> gameOver b' \<and> \<not> isAnimating b' \<and>
        (?e \<and> tile3 \<longrightarrow> isEscaping b' \<and> ts' = ts @ [EscapeTimer]) \<and>
        (\<not> ?e \<longrightarrow> \<not> isEscaping b' \<and> ts' = ts)"
    using r acc by (auto simp: triggerEscapeAnimation_def Let_def split: if_splits)
  show ?thesis using g run props by blast
qed

lemma near_edge_search:
  "findShortestEscapePath \<lparr>position = (5, 8), rotation = 0\<rparr> {(0, 0)} (gridSquares 11 10) 11 10
     = Some (Some [(5, 8), (4, 9)])"
  by code_simp

theorem move_to_next_square_witness:
  "acceptsClick nearEdgeBoard 0 0 \<and>
   getNextStep \<lparr>position = (5, 8), rotation = 0\<rparr> {(0, 0)} (gridSquares 11 10) 11 10
     = Some (Some (4, 9), True) \<and>
   (\<exists>b' ts'. run [Click 0 0 True, Fire 0 True [], Fire 0 True [], Fire 0 True []]
        (nearEdgeBoard, []) = Some (b', ts') \<and>
      position (lobster b') = (4, 9) \<and> isEscaping b' \<and> ts' = [EscapeTimer])"
proof -
  have a: "acceptsClick nearEdgeBoard 0 0"
    by (simp add: acceptsClick_def nearEdgeBoard_def openBoard_eq)
  have s: "findShortestEscapePath (lobster nearEdgeBoard) (insert (0, 0) (blockedSet nearEdgeBoard))
      (boardSquares nearEdgeBoard) (gridWidth nearEdgeBoard) (gridHeight nearEdgeBoard)
      = Some (Some [(5, 8), (4, 9)])"
    using near_edge_search by (simp add: nearEdgeBoard_def openBoard_eq)
  have l: "1 < length [(5, 8), (4, 9 :: int)]" by simp
  have d: "lobster nearEdgeBoard = \<lparr>position = (5, 8), rotation = 0\<rparr>"
    "insert (0, 0) (blockedSet nearEdgeBoard) = {(0, 0)}"
    "boardSquares nearEdgeBoard = gridSquares 11 10"
    "gridWidth nearEdgeBoard = 11" "gridHeight nearEdgeBoard = 10"
    by (simp_all add: nearEdgeBoard_def openBoard_eq)
  have e: "isBoundary 11 10 (4, 9)" by (simp add: isBoundary_def)
  note m = move_to_next_square [OF a s l, of True "[]" True "[]" True "[]" True "[]", unfolded d]
  have n: "[(5, 8), (4, 9 :: int)] ! 1 = (4, 9)" by simp
  from m have g: "getNextStep \<lparr>position = (5, 8), rotation = 0\<rparr> {(0, 0)} (gridSquares 11 10) 11 10
     = Some (Some (4, 9), True)"
    using e by (simp add: n)
  from m obtain b' ts' where
    r: "run [Click 0 0 True, Fire (length ([] :: timer list)) True [],
          Fire (length ([] :: timer list)) True [], Fire (length ([] :: timer list)) True []]
        (nearEdgeBoard, []) = Some (b', ts')"
    and q: "position (lobster b') = [(5, 8), (4, 9)] ! 1"
    and x: "isBoundary 11 10 ([(5, 8), (4, 9)] ! 1) \<and> True \<longrightarrow>
        isEscaping b' \<and> ts' = [] @ [EscapeTimer]"
    by blast
  from x e have "isEscaping b'" "ts' = [EscapeTimer]" by (simp_all add: n)
  moreover from q have "position (lobster b') = (4, 9)" by (simp only: n)
  moreover from r have "run [Click 0 0 True, Fire 0 True [], Fire 0 True [], Fire 0 True []]
        (nearEdgeBoard, []) = Some (b', ts')" by (simp only: list.size)
  ultimately show ?thesis using a g by blast
qed

section \<open>Reset, the first turn and the invariant of a round\<close>

lemma in_gridSquares:
  "(a, b) \<in> set (gridSquares w h) \<longleftrightarrow> 0 \<le> a \<and> a < w \<and> 0 \<le> b \<and> b < h"
  by (auto simp: gridSquares_def image_iff)

lemma pickSquare_Some:
  "pickSquare sq lp ds = Some (s, ds') \<Longrightarrow> s \<noteq> lp \<and> s \<in> set sq"
  by (induction ds) (auto split: if_splits)

lemma placeRocks_avoids:
  "placeRocks n sq lp ds blocked = Some bl \<Longrightarrow> lp \<notin> blocked \<Longrightarrow> lp \<notin> bl"
proof (induction n arbitrary: ds blocked)
  case 0
  then show ?case by simp
next
  case (Suc n)
  from Suc.prems(1) obtain s ds' where p: "pickSquare sq lp ds = Some (s, ds')"
    and r: "placeRocks n sq lp ds' (insert s blocked) = Some bl"
    by (auto split: option.splits)
  from pickSquare_Some [OF p] Suc.prems(2) have "lp \<notin> insert s blocked" by auto
  with Suc.IH [OF r] show ?case .
qed

lemma placeRocks_card:
  "placeRocks n sq lp ds blocked = Some bl \<Longrightarrow> finite blocked \<Longrightarrow>
   finite bl \<and> card bl \<le> card blocked + n \<and> blocked \<subseteq> bl \<and> bl \<subseteq> blocked \<union> set sq"
proof (induction n arbitrary: ds blocked)
  case 0
  then show ?case by simp
next
  case (Suc n)
  from Suc.prems(1) obtain s ds' where p: "pickSquare sq lp ds = Some (s, ds')"
    and r: "placeRocks n sq lp ds' (insert s blocked) = Some bl"
    by (auto split: option.splits)
  have f: "finite (insert s blocked)" using Suc.prems(2) by simp
  have c: "card (insert s blocked) \<le> Suc (card blocked)"
    using Suc.prems(2) by (simp add: card_insert_if)
  from Suc.IH [OF r f] c pickSquare_Some [OF p] show ?case by auto
qed

lemma reset_spec:
  assumes "reset draws b = Some b'"
  shows "position (lobster b') = (gridWidth b div 2, gridHeight b div 2)"
    and "position (lobster b') \<notin> blockedSet b'"
    and "card (blockedSet b') \<le> rockCount (length (boardSquares b))"
    and "blockedSet b' \<subseteq> set (boardSquares b)"
    and "\<not> gameOver b'" "\<not> gameLost b'" "\<not> isAnimating b'" "\<not> isEscaping b'"
    and "gridWidth b' = gridWidth b" "gridHeight b' = gridHeight b"
    and "boardSquares b' = boardSquares b"
proof -
  let ?c = "(gridWidth b div 2, gridHeight b div 2)"
  from assms obtain bl where
    p: "placeRocks (rockCount (length (boardSquares b))) (boardSquares b) ?c draws {} = Some bl"
    and b': "b' = b\<lparr>blockedSet := bl, lobster := \<lparr>position = ?c, rotation = 0\<rparr>,
        gameOver := False, gameLost := False, isAnimating := False, isEscaping := False\<rparr>"
    by (auto simp: reset_def placeRandomRocks_def spawnLobster_def Let_def)
  from placeRocks_avoids [OF p] have a: "?c \<notin> bl" by simp
  from placeRocks_card [OF p] have c: "card bl \<le> rockCount (length (boardSquares b))"
    "bl \<subseteq> set (boardSquares b)" by simp_all
  show "position (lobster b') = (gridWidth b div 2, gridHeight b div 2)"
    and "position (lobster b') \<notin> blockedSet b'"
    and "card (blockedSet b') \<le> rockCount (length (boardSquares b))"
    and "blockedSet b' \<subseteq> set (boardSquares b)"
    and "\<not> gameOver b'" "\<not> gameLost b'" "\<not> isAnimating b'" "\<not> isEscaping b'"
    and "gridWidth b' = gridWidth b" "gridHeight b' = gridHeight b"
    and "boardSquares b' = boardSquares b"
    using a c by (simp_all add: b')
qed

lemma newGame1Board_spec:
  assumes "newGame1Board draws = Some b"
  shows "position (lobster b) = (5, 5)" and "position (lobster b) \<notin> blockedSet b"
proof -
  from assms obtain bl where
    p: "placeRocks (rockCount (length (gridSquares 11 10))) (gridSquares 11 10) (5, 5) draws {} = Some bl"
    and b: "b = openBoard\<lparr>blockedSet := bl\<rparr>"
    by (auto simp: newGame1Board_def placeRandomRocks_def Let_def openBoard_eq)
  from placeRocks_avoids [OF p] have "(5, 5) \<notin> bl" by simp
  then show "position (lobster b) = (5, 5)" and "position (lobster b) \<notin> blockedSet b"
    by (simp_all add: b openBoard_eq)
qed

text \<open>
  C6.  A reset whose random draws hit one square twice leaves fewer rocks than
  rockCount: with the draws 0, 1, ..., 14, 0 on the 11 by 10 board the lobster is at
  (5, 5) and the blocked set has 15 squares, while rockCount is 16.
\<close>

theorem reset_repeated_draw:
  "map_option (\<lambda>b'. (position (lobster b'), card (blockedSet b')))
     (reset [0, 1, 2, 3, 4, 5, 6, 7, 8, 9, 10, 11, 12, 13, 14, 0] openBoard) = Some ((5, 5), 15) \<and>
   rockCount (length (boardSquares openBoard)) = 16"
  by code_simp

lemma validRoute_second:
  "validRoute blocked board p \<Longrightarrow> 1 < length p \<Longrightarrow> p ! 1 \<in> set board \<and> p ! 1 \<notin> blocked"
  by (induction blocked board p rule: validRoute.induct) simp_all

lemma next_square_free:
  assumes "findShortestEscapePath l blocked board w h = Some (Some p)" and "1 < length p"
  shows "p ! 1 \<notin> blocked"
proof -
  from findShortestEscapePath_spec [of l blocked board w h] assms(1)
  have "escapeRoute blocked board w h (position l) p" by auto
  then have "validRoute blocked board p" by (simp add: escapeRoute_def)
  from validRoute_second [OF this assms(2)] show ?thesis by simp
qed

lemma gameInv_click:
  assumes inv: "gameInv (b, ts)" and c: "clickHexTile tile x y (b, ts) = Some st'"
  shows "gameInv st'"
proof (cases "acceptsClick b x y")
  case False
  from clickHexTile_rejected [OF False, of tile ts] c inv show ?thesis by simp
next
  case True
  have ts: "ts = []"
  proof (cases ts)
    case Nil
    then show ?thesis .
  next
    case (Cons t ts')
    with inv have "timerOk b t" by (simp add: gameInv_def)
    with True show ?thesis by (cases t) (simp_all add: acceptsClick_def)
  qed
  have pos: "position (lobster b) \<notin> insert (x, y) (blockedSet b)"
    using inv True by (auto simp: gameInv_def acceptsClick_def)
  show ?thesis
  proof (cases rule: getNextStep_cases [of "lobster b" "insert (x, y) (blockedSet b)"
        "boardSquares b" "gridWidth b" "gridHeight b"])
    case captured
    then have "st' = (b\<lparr>blockedSet := insert (x, y) (blockedSet b), gameOver := True\<rparr>,
            if tile then ts @ [CaughtTimer] else ts)"
      using c by (simp add: clickHexTile_accepted [OF True])
    then show ?thesis using pos ts by (simp add: gameInv_def)
  next
    case (moves p)
    have "p ! 1 \<notin> insert (x, y) (blockedSet b)" using moves(1,2) by (rule next_square_free)
    moreover have "st' = (b\<lparr>blockedSet := insert (x, y) (blockedSet b), isAnimating := True,
        lobster := (lobster b)\<lparr>rotation := getRotationForDirection (lobster b) (p ! 1)\<rparr>\<rparr>,
        ts @ [TurnTimer (p ! 1) (isBoundary (gridWidth b) (gridHeight b) (p ! 1))])"
      using c moves(3) by (simp add: clickHexTile_accepted [OF True])
    ultimately show ?thesis using pos ts by (simp add: gameInv_def)
  qed
qed

lemma gameInv_fire:
  assumes inv: "gameInv (b, ts)" and s: "step (Fire i tile draws) (b, ts) = Some st'"
  shows "gameInv st'"
proof -
  from s have i: "i < length ts" by (simp split: if_splits)
  with inv obtain t where ts: "ts = [t]" and i0: "i = 0"
    by (cases ts) (auto simp: gameInv_def)
  from inv ts have ok: "timerOk b t" and pos: "position (lobster b) \<notin> blockedSet b"
    by (simp_all add: gameInv_def)
  from s ts i0 have f: "fireTimer t tile draws (b, []) = Some st'" by simp
  show ?thesis
  proof (cases t)
    case (TurnTimer n e)
    with f ok pos show ?thesis by (auto simp: gameInv_def)
  next
    case (WiggleTimer n e)
    with f ok pos show ?thesis by (auto simp: gameInv_def)
  next
    case (JumpTimer e)
    with f ok pos show ?thesis
      by (auto simp: gameInv_def triggerEscapeAnimation_def Let_def split: if_splits)
  next
    case EscapeTimer
    with f obtain b' where r: "reset draws (b\<lparr>isEscaping := False\<rparr>) = Some b'"
      and st: "st' = (b', [])" by auto
    from reset_spec(2) [OF r] st show ?thesis by (simp add: gameInv_def)
  next
    case CaughtTimer
    with f obtain b' where r: "reset draws b = Some b'" and st: "st' = (b', [])" by auto
    from reset_spec(2) [OF r] st show ?thesis by (simp add: gameInv_def)
  qed
qed

lemma gameInv_run:
  "gameInv st \<Longrightarrow> \<forall>e \<in> set evs. \<not> isRestart e \<Longrightarrow> run evs st = Some st' \<Longrightarrow> gameInv st'"
proof (induction evs arbitrary: st)
  case Nil
  then show ?case by simp
next
  case (Cons e evs)
  from Cons.prems(3) obtain st1 where s: "step e st = Some st1" and r: "run evs st1 = Some st'"
    by (auto split: option.splits)
  obtain b ts where st: "st = (b, ts)" by (cases st)
  have "gameInv st1"
  proof (cases e)
    case (Click x y tile)
    with s st have "clickHexTile tile x y (b, ts) = Some st1" by simp
    with Cons.prems(1) st show ?thesis using gameInv_click by blast
  next
    case (Fire i tile draws)
    with s st have "step (Fire i tile draws) (b, ts) = Some st1" by simp
    with Cons.prems(1) st show ?thesis using gameInv_fire by blast
  next
    case (Restart draws)
    with Cons.prems(2) show ?thesis by simp
  qed
  with Cons.IH [OF _ _ r] Cons.prems(2) show ?case by simp
qed

text \<open>
  On a fresh board, built by the constructor or left by reset, the lobster's square is not
  blocked, and it is not blocked after any sequence of clicks and of firings of the pending
  timers (the steps of a move, and the resets that end an escape and a capture), as long as
  the restart button is not pressed.
\<close>

lemma lobster_never_on_rock:
  assumes "newGame1Board draws = Some b0 \<or> reset draws b = Some b0"
    and "\<forall>e \<in> set evs. \<not> isRestart e"
    and "run evs (b0, []) = Some (b', ts')"
  shows "position (lobster b') \<notin> blockedSet b'"
proof -
  have "position (lobster b0) \<notin> blockedSet b0"
    using assms(1) newGame1Board_spec(2) [of draws b0] reset_spec(2) [of draws b b0] by blast
  then have "gameInv (b0, [])" by (simp add: gameInv_def)
  from gameInv_run [OF this assms(2,3)] show ?thesis by (simp add: gameInv_def)
qed

lemma first_round_runs:
  "Option.bind (newGame1Board [0, 1, 2, 3, 4, 5, 6, 7, 8, 9, 10, 11, 12, 13, 14, 15])
     (\<lambda>b0. run [Click 5 6 True, Fire 0 True [], Fire 0 True [], Fire 0 True [], Click 5 5 True]
        (b0, [])) \<noteq> None"
  by code_simp

lemma lobster_never_on_rock_example:
  "\<exists>b0 b' ts'.
     newGame1Board [0, 1, 2, 3, 4, 5, 6, 7, 8, 9, 10, 11, 12, 13, 14, 15] = Some b0 \<and>
     run [Click 5 6 True, Fire 0 True [], Fire 0 True [], Fire 0 True [], Click 5 5 True]
       (b0, []) = Some (b', ts') \<and>
     position (lobster b') \<notin> blockedSet b'"
proof -
  let ?evs = "[Click 5 6 True, Fire 0 True [], Fire 0 True [], Fire 0 True [], Click 5 5 True]"
  from first_round_runs obtain b0 b' ts' where
    n: "newGame1Board [0, 1, 2, 3, 4, 5, 6, 7, 8, 9, 10, 11, 12, 13, 14, 15] = Some b0"
    and r: "run ?evs (b0, []) = Some (b', ts')"
    by (auto simp: bind_eq_Some_conv)
  have e: "\<forall>e \<in> set ?evs. \<not> isRestart e" by simp
  from lobster_never_on_rock [OF disjI1 [OF n] e r] n r show ?thesis by blast
qed

text \<open>
  C4.  The invariant that the lobster's square is never blocked is broken by a restart
  during a move.  \<^verbatim>\<open>reset()\<close> does not cancel the timers of \<^verbatim>\<open>animateTurnWiggleJump\<close>: on the
  constructor's board with rocks on the squares 0 to 15, the click on (10, 0) is accepted
  and schedules the move to (5, 6); the restart then spawns a new lobster and draws new
  rocks, (5, 6) among them; the two timers that were pending fire and put the new lobster
  on (5, 6), a blocked square.
\<close>

theorem restart_during_move:
  "Option.bind (newGame1Board [0, 1, 2, 3, 4, 5, 6, 7, 8, 9, 10, 11, 12, 13, 14, 15])
     (\<lambda>b0. map_option (\<lambda>(b, ts). (position (lobster b), position (lobster b) \<in> blockedSet b))
        (run [Click 10 0 True, Restart [56, 0, 1, 2, 3, 4, 5, 6, 7, 8, 9, 10, 11, 12, 13, 14],
              Fire 0 True [], Fire 0 True []] (b0, [])))
   = Some ((5, 6), True)"
  by code_simp

lemma open_search:
  "findShortestEscapePath \<lparr>position = (5, 5), rotation = 0\<rparr> {} (gridSquares 11 10) 11 10
     = Some (Some [(5, 5), (5, 6), (4, 7), (4, 8), (3, 9)])"
  by code_simp

lemma open_search_5_4:
  "findShortestEscapePath \<lparr>position = (5, 4), rotation = 0\<rparr> {} (gridSquares 11 10) 11 10
     = Some (Some [(5, 4), (4, 3), (4, 2), (3, 1), (3, 0)])"
  by code_simp

lemma row5_right:
  "(x, y) \<notin> set [(6, 5), (7, 5), (8, 5), (9, 5), (10, 5)] \<Longrightarrow>
   escapeRoute {(x, y)} (gridSquares 11 10) 11 10 (5, 5)
     [(5, 5), (6, 5), (7, 5), (8, 5), (9, 5), (10, 5)]"
  by (simp add: escapeRoute_def in_gridSquares isBoundary_def getNeighbors_def directions_def
      js_rem_def)

lemma row5_left:
  "(x, y) \<notin> set [(4, 5), (3, 5), (2, 5), (1, 5), (0, 5)] \<Longrightarrow>
   escapeRoute {(x, y)} (gridSquares 11 10) 11 10 (5, 5)
     [(5, 5), (4, 5), (3, 5), (2, 5), (1, 5), (0, 5)]"
  by (simp add: escapeRoute_def in_gridSquares isBoundary_def getNeighbors_def directions_def
      js_rem_def)

lemma one_rock_leaves_route:
  "\<exists>p. escapeRoute {(x, y)} (gridSquares 11 10) 11 10 (5, 5) p"
proof (cases "(x, y) \<in> set [(6, 5), (7, 5), (8, 5), (9, 5), (10, 5)]")
  case True
  then have "(x, y) \<notin> set [(4, 5), (3, 5), (2, 5), (1, 5), (0, 5)]" by auto
  from row5_left [OF this] show ?thesis ..
next
  case False
  from row5_right [OF this] show ?thesis ..
qed

lemma escapeRoute_long:
  assumes "escapeRoute blocked board w h start p" and "\<not> isBoundary w h start"
  shows "1 < length p"
proof (cases p)
  case Nil
  with assms(1) show ?thesis by (simp add: escapeRoute_def)
next
  case (Cons c q)
  with assms show ?thesis by (cases q) (auto simp: escapeRoute_def)
qed

text \<open>
  C7 as stated fails: the constructor spawns the lobster at (5, 5), not at (5, 4), and on
  the board without rocks the route from the spawn has five squares (so has the route from
  (5, 4)), not two.
\<close>

theorem spawn_route_counterexample:
  "position (lobster openBoard) \<noteq> (5, 4) \<and>
   findShortestEscapePath (lobster openBoard) (blockedSet openBoard) (boardSquares openBoard)
     (gridWidth openBoard) (gridHeight openBoard)
     = Some (Some [(5, 5), (5, 6), (4, 7), (4, 8), (3, 9)]) \<and>
   findShortestEscapePath \<lparr>position = (5, 4), rotation = 0\<rparr> {} (gridSquares 11 10) 11 10
     = Some (Some [(5, 4), (4, 3), (4, 2), (3, 1), (3, 0)])"
  using open_search open_search_5_4 by (simp add: openBoard_eq)

text \<open>
  C7, amended.  On the 11 by 10 grid the lobster is spawned at (5, 5); with no square
  blocked findShortestEscapePath returns a route of five squares from there; and on that
  board no first click ends the round: every click returns with gameOver false.
\<close>

theorem open_board_first_turn:
  "position (lobster openBoard) = (5, 5) \<and>
   blockedSet openBoard = {} \<and>
   findShortestEscapePath (lobster openBoard) (blockedSet openBoard) (boardSquares openBoard)
     (gridWidth openBoard) (gridHeight openBoard)
     = Some (Some [(5, 5), (5, 6), (4, 7), (4, 8), (3, 9)]) \<and>
   (\<forall>x y tile. \<exists>b' ts'. clickHexTile tile x y (openBoard, []) = Some (b', ts') \<and> \<not> gameOver b')"
proof -
  have "\<exists>b' ts'. clickHexTile tile x y (openBoard, []) = Some (b', ts') \<and> \<not> gameOver b'"
    for x y tile
  proof (cases "acceptsClick openBoard x y")
    case False
    from clickHexTile_rejected [OF False, of tile "[]"] show ?thesis
      by (simp add: openBoard_eq)
  next
    case True
    let ?l = "\<lparr>position = (5, 5), rotation = 0\<rparr>"
    have nb: "\<not> isBoundary 11 10 (position ?l)" by (simp add: isBoundary_def)
    obtain r where r: "findShortestEscapePath ?l {(x, y)} (gridSquares 11 10) 11 10 = Some r"
      and c: "case r of
        None \<Rightarrow> (\<forall>p. \<not> escapeRoute {(x, y)} (gridSquares 11 10) 11 10 (position ?l) p)
      | Some rt \<Rightarrow> escapeRoute {(x, y)} (gridSquares 11 10) 11 10 (position ?l) rt \<and>
          (\<forall>p. escapeRoute {(x, y)} (gridSquares 11 10) 11 10 (position ?l) p \<longrightarrow>
             length rt \<le> length p)"
      using findShortestEscapePath_spec [of ?l "{(x, y)}" "gridSquares 11 10" 11 10] by blast
    from one_rock_leaves_route [of x y] c obtain rt where rt: "r = Some rt"
      and e: "escapeRoute {(x, y)} (gridSquares 11 10) 11 10 (position ?l) rt"
      by (cases r) auto
    from escapeRoute_long [OF e nb] have l: "1 < length rt" .
    have "getNextStep ?l {(x, y)} (gridSquares 11 10) 11 10
        = Some (Some (rt ! 1), isBoundary 11 10 (rt ! 1))"
      using r rt l by (simp add: getNextStep_def Let_def)
    then have g: "getNextStep (lobster openBoard) (insert (x, y) (blockedSet openBoard))
        (boardSquares openBoard) (gridWidth openBoard) (gridHeight openBoard)
        = Some (Some (rt ! 1), isBoundary 11 10 (rt ! 1))"
      by (simp add: openBoard_eq)
    have "clickHexTile tile x y (openBoard, []) =
        Some (openBoard\<lparr>blockedSet := insert (x, y) (blockedSet openBoard), isAnimating := True,
                lobster := (lobster openBoard)
                  \<lparr>rotation := getRotationForDirection (lobster openBoard) (rt ! 1)\<rparr>\<rparr>,
              [] @ [TurnTimer (rt ! 1) (isBoundary 11 10 (rt ! 1))])"
      unfolding clickHexTile_accepted [OF True] g by simp
    moreover have "\<not> gameOver openBoard" by (simp add: openBoard_eq)
    ultimately show ?thesis by simp
  qed
  then show ?thesis using open_search by (simp add: openBoard_eq)
qed

theorem open_board_first_turn_witness:
  "position (lobster openBoard) = (5, 5) \<and>
   (\<exists>b' ts'. clickHexTile True 5 6 (openBoard, []) = Some (b', ts') \<and> \<not> gameOver b')"
  using open_board_first_turn by blast

section \<open>The tie between routes of one length\<close>

lemma lexLess_lex: "length xs = length ys \<Longrightarrow> lexLess xs ys \<longleftrightarrow> (xs, ys) \<in> lex less_than"
  by (induction xs ys rule: lexLess.induct) auto

lemma earlier_lenlex: "earlier xs ys \<longleftrightarrow> (xs, ys) \<in> lenlex less_than"
  by (auto simp: earlier_def lenlex_conv lexLess_lex)

lemma earlier_length: "length xs < length ys \<Longrightarrow> earlier xs ys"
  by (simp add: earlier_def)

lemma earlier_snoc: "earlier xs ys \<Longrightarrow> earlier (xs @ [a]) (ys @ [b])"
  unfolding earlier_lenlex by (rule lenlex_append1) simp_all

lemma earlier_snoc_same: "a < b \<Longrightarrow> earlier (xs @ [a]) (xs @ [b])"
  unfolding earlier_lenlex by (simp add: irrefl_def Cons_lenlex_iff)

lemma earlier_trans: "earlier xs ys \<Longrightarrow> earlier ys zs \<Longrightarrow> earlier xs zs"
  unfolding earlier_lenlex by (rule lenlex_trans) simp_all

lemma earlier_irrefl: "\<not> earlier xs xs"
  unfolding earlier_lenlex by (rule lenlex_irreflexive) simp

lemma length_dirCode: "length (dirCode p) = length p - 1"
  by (induction p rule: dirCode.induct) simp_all

lemma dirCode_snoc:
  "p \<noteq> [] \<Longrightarrow> dirCode (p @ [d]) = dirCode p @ [indexOf (getNeighbors (last p)) d]"
  by (induction p rule: dirCode.induct) simp_all

lemma indexOf_inj:
  "a \<in> set xs \<Longrightarrow> b \<in> set xs \<Longrightarrow> indexOf xs a = indexOf xs b \<Longrightarrow> a = b"
  by (induction xs) (auto split: if_splits)

lemma sorted_wrt_indexOf:
  "distinct ns \<Longrightarrow> sorted_wrt (\<lambda>a b. indexOf ns a < indexOf ns b) ns"
proof (induction ns)
  case Nil
  then show ?case by simp
next
  case (Cons n ns)
  have "sorted_wrt (\<lambda>a b. indexOf ns a < indexOf ns b) ns" using Cons by simp
  then have "sorted_wrt (\<lambda>a b. indexOf (n # ns) a < indexOf (n # ns) b) ns"
  proof (rule sorted_wrt_mono_rel [rotated])
    fix x y assume "x \<in> set ns" "y \<in> set ns" "indexOf ns x < indexOf ns y"
    then show "indexOf (n # ns) x < indexOf (n # ns) y" using Cons.prems by auto
  qed
  moreover have "\<forall>b \<in> set ns. indexOf (n # ns) n < indexOf (n # ns) b"
    using Cons.prems by auto
  ultimately show ?case by simp
qed

lemma walk_code_inj:
  "walk blocked board start p \<Longrightarrow> walk blocked board start q \<Longrightarrow> dirCode p = dirCode q \<Longrightarrow>
   p = q"
proof (induction arbitrary: q rule: walk.induct)
  case walk_start
  from walk_start(2) have "length (dirCode q) = 0" by simp
  then have "length q \<le> 1" by (simp add: length_dirCode)
  moreover have "q \<noteq> []" "hd q = start"
    using walk_start(1) by (simp_all add: walk_nonempty walk_hd)
  ultimately show ?case by (cases q) auto
next
  case (walk_step p d)
  have pn: "p \<noteq> []" using walk_step.hyps(1) by (rule walk_nonempty)
  from walk_step.prems(1) show ?case
  proof (cases rule: walk.cases)
    case walk_start
    with walk_step.prems(2) pn show ?thesis by (simp add: dirCode_snoc)
  next
    case (walk_step q' d')
    have qn: "q' \<noteq> []" using walk_step(2) by (rule walk_nonempty)
    from walk_step.prems(2) walk_step(1)
    have "dirCode p @ [indexOf (getNeighbors (last p)) d] =
          dirCode q' @ [indexOf (getNeighbors (last q')) d']"
      by (simp add: dirCode_snoc pn qn)
    then have c: "dirCode p = dirCode q'"
      and i: "indexOf (getNeighbors (last p)) d = indexOf (getNeighbors (last q')) d'"
      by simp_all
    from walk_step.IH [OF walk_step(2) c] have pq: "p = q'" .
    from i pq have "d = d'"
      using indexOf_inj [of d "getNeighbors (last p)" d'] walk_step.hyps(2) walk_step(3) by simp
    with pq walk_step(1) show ?thesis by simp
  qed
qed

lemma bfsOrd_least:
  "bfsOrd blocked board start pth queue parent \<Longrightarrow> parent (last p) \<noteq> None \<Longrightarrow>
   walk blocked board start p \<Longrightarrow>
   dirCode (pth (last p)) = dirCode p \<or> earlier (dirCode (pth (last p))) (dirCode p)"
  unfolding bfsOrd_def by blast

lemma bfsOrd_sorted:
  "bfsOrd blocked board start pth queue parent \<Longrightarrow>
   sorted_wrt (\<lambda>a b. earlier (dirCode (pth a)) (dirCode (pth b))) queue"
  unfolding bfsOrd_def by blast

lemma bfsOrd_head:
  assumes "bfsOrd blocked board start pth (key # rest) parent" and "b \<in> set rest"
  shows "earlier (dirCode (pth key)) (dirCode (pth b))"
  using bfsOrd_sorted [OF assms(1)] assms(2) by simp

lemma bfsOrd_deeper:
  "bfsOrd blocked board start pth queue parent \<Longrightarrow> a \<in> set queue \<Longrightarrow> b \<in> set queue \<Longrightarrow>
   length (pth a) = Suc (length (pth b)) \<Longrightarrow>
   earlier (dirCode (butlast (pth a))) (dirCode (pth b))"
  unfolding bfsOrd_def by blast

lemma dirCode_butlast:
  assumes "2 \<le> length p"
  shows "dirCode p = dirCode (butlast p) @ [indexOf (getNeighbors (last (butlast p))) (last p)]"
proof -
  have n: "p \<noteq> []" "butlast p \<noteq> []" using assms by (cases p; cases "tl p"; auto)+
  have "dirCode (butlast p @ [last p]) =
      dirCode (butlast p) @ [indexOf (getNeighbors (last (butlast p))) (last p)]"
    using n(2) by (rule dirCode_snoc)
  then show ?thesis using n(1) by simp
qed

lemma bfsOrd_init:
  "bfsOrd blocked board start (\<lambda>c. [start]) [start] (Map.empty(start \<mapsto> None))"
proof -
  have c1: "\<forall>c p. (Map.empty(start \<mapsto> None)) c \<noteq> None \<longrightarrow> walk blocked board start p \<longrightarrow>
      last p = c \<longrightarrow> dirCode [start] = dirCode p \<or> earlier (dirCode [start]) (dirCode p)"
  proof (intro allI impI)
    fix c p assume "walk blocked board start p"
    then have "p \<noteq> []" by (rule walk_nonempty)
    show "dirCode [start] = dirCode p \<or> earlier (dirCode [start]) (dirCode p)"
    proof (cases "dirCode p = []")
      case True
      then show ?thesis by simp
    next
      case False
      then have "earlier [] (dirCode p)" by (simp add: earlier_def)
      then show ?thesis by simp
    qed
  qed
  have c2: "sorted_wrt (\<lambda>a b. earlier (dirCode [start]) (dirCode [start])) [start]" by simp
  have c3: "\<forall>a \<in> set [start]. \<forall>b \<in> set [start]. length [start] = Suc (length [start]) \<longrightarrow>
        earlier (dirCode (butlast [start])) (dirCode [start])" by simp
  show ?thesis
    unfolding bfsOrd_def
    apply (intro conjI)
      apply (rule c1)
     apply (rule c2)
    apply (rule c3)
    done
qed

lemma bfsOrd_step:
  assumes inv: "bfsInv blocked board w h start pth (key # rest) parent"
    and ord: "bfsOrd blocked board start pth (key # rest) parent"
    and N: "N = filter (fresh blocked board parent) (getNeighbors key)"
    and par': "parent' = (\<lambda>c. if c \<in> set N then Some (Some key) else parent c)"
    and pth': "pth' = (\<lambda>c. if c \<in> set N then pth key @ [c] else pth c)"
  shows "bfsOrd blocked board start pth' (rest @ N) parent'"
proof -
  let ?ix = "indexOf (getNeighbors key)"
  have Nfresh: "parent c = None \<and> c \<in> set (getNeighbors key) \<and> c \<in> set board \<and> c \<notin> blocked"
    if "c \<in> set N" for c
    using that N by (simp add: fresh_def)
  have keyv: "parent key \<noteq> None" using bfsInv_queue [OF inv, of key] by simp
  have old: "c \<notin> set N" if "parent c \<noteq> None" for c
    using that Nfresh [of c] by auto
  have oldp: "pth' c = pth c" if "parent c \<noteq> None" for c
    using old [OF that] by (simp add: pth')
  have newp: "pth' c = pth key @ [c]" if "c \<in> set N" for c
    using that by (simp add: pth')
  have vis: "parent c \<noteq> None \<or> c \<in> set N" if "parent' c \<noteq> None" for c
    using that by (cases "c \<in> set N") (simp_all add: par')
  have wk: "walk blocked board start (pth key)" by (rule bfsInv_walk [OF inv keyv])
  have lk: "last (pth key) = key" by (rule chain_last [OF bfsInv_chain [OF inv keyv]])
  have nk: "pth key \<noteq> []" using wk by (rule walk_nonempty)
  have restv: "parent c \<noteq> None" if "c \<in> set rest" for c
    using that bfsInv_queue [OF inv, of c] by simp
  have restp: "pth' c = pth c" if "c \<in> set rest" for c
    using restv [OF that] by (rule oldp)
  have rest_le: "length (pth c) \<le> Suc (length (pth key))" if "c \<in> set rest" for c
    using bfsInv_band [OF inv, of key c] that by simp
  have rest_ge: "length (pth key) \<le> length (pth c)" if "c \<in> set rest" for c
    using bfsInv_head_least [OF inv, of c] that by simp
  have newc: "dirCode (pth' c) = dirCode (pth key) @ [?ix c]" if "c \<in> set N" for c
    using dirCode_snoc [OF nk, of c] lk by (simp add: newp [OF that])

  have c1: "\<forall>c p. parent' c \<noteq> None \<longrightarrow> walk blocked board start p \<longrightarrow> last p = c \<longrightarrow>
        dirCode (pth' c) = dirCode p \<or> earlier (dirCode (pth' c)) (dirCode p)"
  proof (intro allI impI)
    fix c p
    assume v: "parent' c \<noteq> None" and wp: "walk blocked board start p" and lp: "last p = c"
    show "dirCode (pth' c) = dirCode p \<or> earlier (dirCode (pth' c)) (dirCode p)"
    proof (cases "c \<in> set N")
      case False
      with vis [OF v] have pv: "parent c \<noteq> None" by simp
      then have "parent (last p) \<noteq> None" using lp by simp
      from bfsOrd_least [OF ord this wp] show ?thesis using lp by (simp add: oldp [OF pv])
    next
      case True
      have cu: "parent c = None" using Nfresh [OF True] by simp
      from wp show ?thesis
      proof (cases rule: walk.cases)
        case walk_start
        with lp cu bfsInv_start [OF inv] show ?thesis by simp
      next
        case (walk_step p0 d)
        have dc: "d = c" using walk_step(1) lp by simp
        have p0n: "p0 \<noteq> []" using walk_step(2) by (rule walk_nonempty)
        have cp: "dirCode p = dirCode p0 @ [indexOf (getNeighbors (last p0)) c]"
          using dirCode_snoc [OF p0n, of d] walk_step(1) dc by simp
        have "parent (last p) = None" using cu lp by simp
        from frontier_unvisited [OF inv wp this]
        obtain q where q: "q \<in> set (key # rest)" "Suc (length (pth q)) \<le> length p" by blast
        have "length (pth key) \<le> length (pth q)" by (rule bfsInv_head_least [OF inv q(1)])
        with q(2) walk_step(1) have ge: "length (pth key) \<le> length p0" by simp
        show ?thesis
        proof (cases "length (pth key) < length p0")
          case True
          have "length (dirCode (pth' c)) < length (dirCode p)"
            using True nk p0n by (simp add: newc [OF \<open>c \<in> set N\<close>] cp length_dirCode)
          then show ?thesis by (simp add: earlier_length)
        next
          case False
          with ge have len: "length p0 = length (pth key)" by simp
          have v0: "parent (last p0) \<noteq> None"
          proof
            assume "parent (last p0) = None"
            from frontier_unvisited [OF inv walk_step(2) this]
            obtain q' where q': "q' \<in> set (key # rest)" "Suc (length (pth q')) \<le> length p0"
              by blast
            have "length (pth key) \<le> length (pth q')" by (rule bfsInv_head_least [OF inv q'(1)])
            with q'(2) len show False by simp
          qed
          have inq: "last p0 \<in> set (key # rest)"
          proof (rule ccontr)
            assume "last p0 \<notin> set (key # rest)"
            from bfsInv_done_closed [OF inv v0 this walk_step(3,4,5)] dc cu show False by simp
          qed
          have l0: "length (pth (last p0)) = length (pth key)"
            using bfsInv_short [OF inv v0 walk_step(2)] bfsInv_head_least [OF inv inq] len by simp
          have k0: "dirCode (pth key) = dirCode p0 \<or> earlier (dirCode (pth key)) (dirCode p0)"
          proof (cases "last p0 = key")
            case True
            with bfsOrd_least [OF ord v0 walk_step(2)] show ?thesis by simp
          next
            case False
            with inq have "last p0 \<in> set rest" by simp
            from bfsOrd_head [OF ord this]
            have e: "earlier (dirCode (pth key)) (dirCode (pth (last p0)))" .
            from bfsOrd_least [OF ord v0 walk_step(2)] show ?thesis
            proof
              assume "dirCode (pth (last p0)) = dirCode p0"
              with e show ?thesis by simp
            next
              assume "earlier (dirCode (pth (last p0))) (dirCode p0)"
              with e show ?thesis by (blast intro: earlier_trans)
            qed
          qed
          show ?thesis
          proof (cases "last p0 = key")
            case True
            from k0 show ?thesis
            proof
              assume "dirCode (pth key) = dirCode p0"
              then show ?thesis using True by (simp add: newc [OF \<open>c \<in> set N\<close>] cp)
            next
              assume "earlier (dirCode (pth key)) (dirCode p0)"
              then have "earlier (dirCode (pth' c)) (dirCode p)"
                unfolding newc [OF \<open>c \<in> set N\<close>] cp by (rule earlier_snoc)
              then show ?thesis by simp
            qed
          next
            case False
            with inq have r0: "last p0 \<in> set rest" by simp
            have "earlier (dirCode (pth key)) (dirCode p0)"
            proof -
              from bfsOrd_head [OF ord r0]
              have e: "earlier (dirCode (pth key)) (dirCode (pth (last p0)))" .
              from bfsOrd_least [OF ord v0 walk_step(2)] show ?thesis
              proof
                assume "dirCode (pth (last p0)) = dirCode p0"
                with e show ?thesis by simp
              next
                assume "earlier (dirCode (pth (last p0))) (dirCode p0)"
                with e show ?thesis by (blast intro: earlier_trans)
              qed
            qed
            then have "earlier (dirCode (pth' c)) (dirCode p)"
              unfolding newc [OF \<open>c \<in> set N\<close>] cp by (rule earlier_snoc)
            then show ?thesis by simp
          qed
        qed
      qed
    qed
  qed

  have s_rest: "sorted_wrt (\<lambda>a b. earlier (dirCode (pth' a)) (dirCode (pth' b))) rest"
  proof (rule sorted_wrt_mono_rel [rotated])
    show "sorted_wrt (\<lambda>a b. earlier (dirCode (pth a)) (dirCode (pth b))) rest"
      using bfsOrd_sorted [OF ord] by simp
  next
    fix a b assume "a \<in> set rest" "b \<in> set rest" "earlier (dirCode (pth a)) (dirCode (pth b))"
    then show "earlier (dirCode (pth' a)) (dirCode (pth' b))" by (simp add: restp)
  qed
  have s_N: "sorted_wrt (\<lambda>a b. earlier (dirCode (pth' a)) (dirCode (pth' b))) N"
  proof (rule sorted_wrt_mono_rel [rotated])
    show "sorted_wrt (\<lambda>a b. ?ix a < ?ix b) N"
      unfolding N by (rule sorted_wrt_filter) (rule sorted_wrt_indexOf [OF distinct_getNeighbors])
  next
    fix a b assume "a \<in> set N" "b \<in> set N" "?ix a < ?ix b"
    then show "earlier (dirCode (pth' a)) (dirCode (pth' b))"
      by (simp add: newc earlier_snoc_same)
  qed
  have s_mix: "earlier (dirCode (pth' a)) (dirCode (pth' b))"
    if a: "a \<in> set rest" and b: "b \<in> set N" for a b
  proof (cases "length (pth a) = length (pth key)")
    case True
    have "length (dirCode (pth a)) < length (dirCode (pth' b))"
      using True nk by (simp add: newc [OF b] length_dirCode)
    then show ?thesis by (simp add: restp [OF a] earlier_length)
  next
    case False
    with rest_le [OF a] rest_ge [OF a] have l: "length (pth a) = Suc (length (pth key))" by simp
    have "earlier (dirCode (butlast (pth a))) (dirCode (pth key))"
      using bfsOrd_deeper [OF ord _ _ l] a by simp
    then have "earlier (dirCode (butlast (pth a)) @ [indexOf (getNeighbors (last (butlast (pth a)))) (last (pth a))])
        (dirCode (pth key) @ [?ix b])"
      by (rule earlier_snoc)
    moreover have "2 \<le> length (pth a)" using l nk by (cases "pth key") simp_all
    ultimately show ?thesis
      using dirCode_butlast [of "pth a"] by (simp add: restp [OF a] newc [OF b])
  qed
  have c2: "sorted_wrt (\<lambda>a b. earlier (dirCode (pth' a)) (dirCode (pth' b))) (rest @ N)"
    using s_rest s_N s_mix by (simp add: sorted_wrt_append)

  have c3: "\<forall>a \<in> set (rest @ N). \<forall>b \<in> set (rest @ N). length (pth' a) = Suc (length (pth' b)) \<longrightarrow>
        earlier (dirCode (butlast (pth' a))) (dirCode (pth' b))"
  proof (intro ballI impI)
    fix a b
    assume a: "a \<in> set (rest @ N)" and b: "b \<in> set (rest @ N)"
      and l: "length (pth' a) = Suc (length (pth' b))"
    show "earlier (dirCode (butlast (pth' a))) (dirCode (pth' b))"
    proof (cases "a \<in> set N")
      case True
      have bN: "b \<notin> set N"
      proof
        assume "b \<in> set N"
        with l True show False by (simp add: newp)
      qed
      with b have br: "b \<in> set rest" by simp
      from bfsOrd_head [OF ord br] show ?thesis
        by (simp add: newp [OF True] restp [OF br])
    next
      case False
      with a have ar: "a \<in> set rest" by simp
      show ?thesis
      proof (cases "b \<in> set N")
        case True
        with l have "length (pth a) = Suc (Suc (length (pth key)))"
          by (simp add: newp restp [OF ar])
        with rest_le [OF ar] show ?thesis by simp
      next
        case False
        with b have br: "b \<in> set rest" by simp
        from l have "length (pth a) = Suc (length (pth b))"
          by (simp add: restp [OF ar] restp [OF br])
        from bfsOrd_deeper [OF ord _ _ this] ar br show ?thesis
          by (simp add: restp [OF ar] restp [OF br])
      qed
    qed
  qed
  show ?thesis
    unfolding bfsOrd_def
    apply (intro conjI)
      apply (rule c1)
     apply (rule c2)
    apply (rule c3)
    done
qed

lemma bfsLoop_first:
  "bfsInv blocked board w h start pth queue parent \<Longrightarrow>
   bfsOrd blocked board start pth queue parent \<Longrightarrow>
   bfsLoop blocked board w h queue parent = Some (Some r) \<Longrightarrow>
   walk blocked board start p \<Longrightarrow> isBoundary w h (last p) \<Longrightarrow>
   dirCode r = dirCode p \<or> earlier (dirCode r) (dirCode p)"
proof (induction queue parent arbitrary: pth
    rule: bfs_induct [where blocked = blocked and board = board and w = w and h = h])
  case (step queue parent)
  note inv = step.prems(1) and ord = step.prems(2) and res = step.prems(3)
    and wp = step.prems(4) and bp = step.prems(5)
  show ?case
  proof (cases queue)
    case Nil
    with res show ?thesis by (subst (asm) bfsLoop.simps) simp
  next
    case (Cons key rest)
    have keyv: "parent key \<noteq> None" using bfsInv_queue [OF inv, of key] Cons by simp
    show ?thesis
    proof (cases "isBoundary w h key")
      case True
      have ck: "chain parent key (pth key)" by (rule bfsInv_chain [OF inv keyv])
      have wk: "walk blocked board start (pth key)" by (rule bfsInv_walk [OF inv keyv])
      have nk: "pth key \<noteq> []" using wk by (rule walk_nonempty)
      have "bfsLoop blocked board w h queue parent = Some (Some (pth key))"
        using Cons True walkParents_chain [OF ck, of "[]"] by (subst bfsLoop.simps) simp
      with res have r: "r = pth key" by simp
      show ?thesis
      proof (cases "parent (last p) = None")
        case True
        from frontier_unvisited [OF inv wp True]
        obtain q where q: "q \<in> set queue" "Suc (length (pth q)) \<le> length p" by blast
        have "length (pth key) \<le> length (pth q)"
          using bfsInv_head_least [of blocked board w h start pth key rest parent q] inv q(1) Cons
          by simp
        moreover have "1 \<le> length (pth key)" using nk by (cases "pth key") simp_all
        ultimately have "length (pth key) - 1 < length p - 1" using q(2) by linarith
        then have "length (dirCode r) < length (dirCode p)"
          by (simp only: r length_dirCode)
        then show ?thesis by (simp add: earlier_length)
      next
        case False
        have inq: "last p \<in> set queue"
          using bfsInv_done_inner [OF inv False] bp by blast
        show ?thesis
        proof (cases "last p = key")
          case True
          with bfsOrd_least [OF ord False wp] show ?thesis by (simp add: r)
        next
          case False
          with inq Cons have "last p \<in> set rest" by simp
          with ord Cons have e: "earlier (dirCode (pth key)) (dirCode (pth (last p)))"
            using bfsOrd_head [of blocked board start pth key rest parent "last p"] by simp
          from bfsOrd_least [OF ord \<open>parent (last p) \<noteq> None\<close> wp] show ?thesis
          proof
            assume "dirCode (pth (last p)) = dirCode p"
            with e show ?thesis by (simp add: r)
          next
            assume "earlier (dirCode (pth (last p))) (dirCode p)"
            with e have "earlier (dirCode (pth key)) (dirCode p)" by (rule earlier_trans)
            then show ?thesis by (simp add: r)
          qed
        qed
      qed
    next
      case False
      let ?N = "newKeys blocked board parent key"
      let ?par = "\<lambda>c. if c \<in> set ?N then Some (Some key) else parent c"
      let ?pth = "\<lambda>c. if c \<in> set ?N then pth key @ [c] else pth c"
      have inv': "bfsInv blocked board w h start ?pth (rest @ ?N) ?par"
        using inv False unfolding Cons
        by (rule bfsInv_step) (simp_all add: newKeys_def)
      have ord': "bfsOrd blocked board start ?pth (rest @ ?N) ?par"
        using inv ord unfolding Cons
        by (rule bfsOrd_step) (simp_all add: newKeys_def)
      have e: "expand blocked board key (rest, parent) = (rest @ ?N, ?par)" by (rule expand_eq)
      have "bfsLoop blocked board w h queue parent = bfsLoop blocked board w h (rest @ ?N) ?par"
        using Cons False by (subst bfsLoop.simps) (simp add: e)
      with res have res': "bfsLoop blocked board w h (rest @ ?N) ?par = Some (Some r)" by simp
      from step.IH [OF Cons False, of ?pth] inv' ord' res' wp bp show ?thesis
        by (simp add: e)
    qed
  qed
qed

lemma bfsLoop_free_squares:
  assumes "\<And>c. (c \<in> set board \<and> c \<notin> blocked) = (c \<in> set board' \<and> c \<notin> blocked')"
  shows "bfsLoop blocked' board' w h queue parent = bfsLoop blocked board w h queue parent"
proof (induction queue parent
    rule: bfs_induct [where blocked = blocked and board = board and w = w and h = h])
  case (step queue parent)
  have v: "visit blocked' board' key = visit blocked board key" for key
    using assms by (auto simp: visit_def fun_eq_iff)
  have e: "expand blocked' board' key qp = expand blocked board key qp" for key qp
    by (simp add: expand_def v)
  show ?case
  proof (cases queue)
    case Nil
    then show ?thesis by (simp add: bfsLoop.simps)
  next
    case (Cons key rest)
    show ?thesis
    proof (cases "isBoundary w h key")
      case True
      with Cons show ?thesis by (simp add: bfsLoop.simps)
    next
      case False
      from step.IH [OF Cons False] Cons False show ?thesis
        by (subst bfsLoop.simps, subst (2) bfsLoop.simps) (simp add: e)
    qed
  qed
qed

text \<open>
  C8.  The route that findShortestEscapePath returns is the first one discovered: every
  other escape route is longer, or as long and later in the lexicographic order of the
  positions that its steps have in the tables of neighbours (dirCode).  The result is a
  function of the start, the grid dimensions and the set of free board squares alone: the
  lobster's rotation, squares blocked off the board and the order in which the keys were
  inserted do not change it.
\<close>

theorem findShortestEscapePath_first_discovered:
  "(findShortestEscapePath l blocked board w h = Some (Some r) \<longrightarrow>
      (\<forall>p. escapeRoute blocked board w h (position l) p \<longrightarrow>
           p = r \<or> earlier (dirCode r) (dirCode p))) \<and>
   ((\<forall>c. (c \<in> set board \<and> c \<notin> blocked) = (c \<in> set board' \<and> c \<notin> blocked')) \<longrightarrow>
      position l' = position l \<longrightarrow>
      findShortestEscapePath l' blocked' board' w h = findShortestEscapePath l blocked board w h)"
proof (intro conjI impI allI)
  fix p
  assume res: "findShortestEscapePath l blocked board w h = Some (Some r)"
    and e: "escapeRoute blocked board w h (position l) p"
  let ?s = "position l"
  from e have wp: "walk blocked board ?s p" and bp: "isBoundary w h (last p)"
    by (simp_all add: escapeRoute_walk)
  from res have loop: "bfsLoop blocked board w h [?s] (Map.empty(?s \<mapsto> None)) = Some (Some r)"
    by (simp add: findShortestEscapePath_def Let_def)
  from bfsLoop_first [OF bfsInv_init bfsOrd_init loop wp bp]
  have d: "dirCode r = dirCode p \<or> earlier (dirCode r) (dirCode p)" .
  from findShortestEscapePath_spec [of l blocked board w h] res
  have "escapeRoute blocked board w h ?s r" by auto
  then have wr: "walk blocked board ?s r" by (simp add: escapeRoute_walk)
  from d show "p = r \<or> earlier (dirCode r) (dirCode p)"
  proof
    assume "dirCode r = dirCode p"
    with walk_code_inj [OF wr wp] show ?thesis by simp
  next
    assume "earlier (dirCode r) (dirCode p)"
    then show ?thesis ..
  qed
next
  assume a: "\<forall>c. (c \<in> set board \<and> c \<notin> blocked) = (c \<in> set board' \<and> c \<notin> blocked')"
    and pos: "position l' = position l"
  from a have a': "(c \<in> set board \<and> c \<notin> blocked) = (c \<in> set board' \<and> c \<notin> blocked')" for c
    by blast
  show "findShortestEscapePath l' blocked' board' w h =
      findShortestEscapePath l blocked board w h"
    unfolding findShortestEscapePath_def Let_def pos
    by (rule bfsLoop_free_squares [OF a'])
qed

lemma detour_search:
  "findShortestEscapePath \<lparr>position = (5, 5), rotation = 0\<rparr> {(5, 6)} (gridSquares 11 10) 11 10
     = Some (Some [(5, 5), (6, 6), (5, 7), (5, 8), (4, 9)])"
  by code_simp

lemma detour_other_route:
  "escapeRoute {(5, 6)} (gridSquares 11 10) 11 10 (5, 5) [(5, 5), (6, 6), (6, 7), (6, 8), (6, 9)]"
  by (simp add: escapeRoute_def in_gridSquares isBoundary_def getNeighbors_def directions_def
      js_rem_def)

lemma detour_codes:
  "dirCode [(5, 5), (6, 6), (5, 7), (5, 8), (4, 9)] = [5, 4, 4, 4]"
  "dirCode [(5, 5), (6, 6), (6, 7), (6, 8), (6, 9)] = [5, 5, 4, 5]"
  by (simp_all add: getNeighbors_def directions_def js_rem_def)

theorem findShortestEscapePath_first_discovered_witness:
  "findShortestEscapePath \<lparr>position = (5, 5), rotation = 0\<rparr> {(5, 6)} (gridSquares 11 10) 11 10
     = Some (Some [(5, 5), (6, 6), (5, 7), (5, 8), (4, 9)]) \<and>
   escapeRoute {(5, 6)} (gridSquares 11 10) 11 10 (5, 5) [(5, 5), (6, 6), (6, 7), (6, 8), (6, 9)] \<and>
   earlier (dirCode [(5, 5), (6, 6), (5, 7), (5, 8), (4, 9)])
     (dirCode [(5, 5), (6, 6), (6, 7), (6, 8), (6, 9)]) \<and>
   findShortestEscapePath \<lparr>position = (5, 5), rotation = 90\<rparr> {(5, 6), (20, 20)}
     (rev (gridSquares 11 10)) 11 10
     = Some (Some [(5, 5), (6, 6), (5, 7), (5, 8), (4, 9)])"
proof -
  let ?l = "\<lparr>position = (5, 5), rotation = 0\<rparr>"
  let ?l' = "\<lparr>position = (5, 5), rotation = 90\<rparr>"
  let ?r = "[(5, 5), (6, 6), (5, 7), (5, 8), (4, 9)] :: HexGridSquare list"
  let ?p = "[(5, 5), (6, 6), (6, 7), (6, 8), (6, 9)] :: HexGridSquare list"
  note t = findShortestEscapePath_first_discovered
    [of ?l "{(5, 6)}" "gridSquares 11 10" 11 10 ?r "rev (gridSquares 11 10)"
        "{(5, 6), (20, 20)}" ?l']
  have e: "escapeRoute {(5, 6)} (gridSquares 11 10) 11 10 (position ?l) ?p"
    using detour_other_route by simp
  from t detour_search e have "?p = ?r \<or> earlier (dirCode ?r) (dirCode ?p)" by blast
  then have first: "earlier (dirCode ?r) (dirCode ?p)" by simp
  have same: "\<forall>c. (c \<in> set (gridSquares 11 10) \<and> c \<notin> {(5, 6)}) =
      (c \<in> set (rev (gridSquares 11 10)) \<and> c \<notin> {(5, 6), (20, 20)})"
    by (auto simp: in_gridSquares)
  have "position ?l' = position ?l" by simp
  with t same have "findShortestEscapePath ?l' {(5, 6), (20, 20)} (rev (gridSquares 11 10)) 11 10
      = findShortestEscapePath ?l {(5, 6)} (gridSquares 11 10) 11 10" by blast
  with detour_search first detour_other_route show ?thesis by simp
qed

end
